theory Spec2Isabelle
  imports Main "HOL-Library.Sublist"
begin

section \<open>Python values used by the detector\<close>

text \<open>
  A Python \<^verbatim>\<open>str\<close> is a sequence of Unicode code points; it is modelled as a list of
  natural numbers.  \<open>str\<close> turns an ASCII literal of the source into such a list.
\<close>

type_synonym pystr = "nat list"

definition str :: "string \<Rightarrow> pystr" where
  "str s = map of_char s"

text \<open>The exceptions that the modelled code can meet.\<close>

datatype py_exception = KeyError pystr | OSError pystr | UnicodeError

text \<open>
  The interpreter around the detector: the part of \<^verbatim>\<open>str.isalnum\<close> that lies beyond
  ASCII (a table of the Unicode database, which is not part of the repository) and the
  reading of \<^verbatim>\<open>datetime.now().isoformat()\<close> taken at the n-th detection.
\<close>

record py_runtime =
  unicode_isalnum :: "nat \<Rightarrow> bool"
  datetime_now :: "nat \<Rightarrow> pystr"

text \<open>\<^verbatim>\<open>str(n)\<close> and \<^verbatim>\<open>repr(n)\<close> of a non-negative integer.\<close>

function py_str_nat :: "nat \<Rightarrow> pystr" where
  "py_str_nat n = (if n < 10 then [48 + n] else py_str_nat (n div 10) @ [48 + n mod 10])"
  by pat_completeness auto
termination
  by (relation "measure id") auto

declare py_str_nat.simps [simp del]

text \<open>
  \<^verbatim>\<open>str.lower()\<close>.  Exact on every code point whose lower case contains an ASCII letter
  (the ASCII capitals, U+0130 and the Kelvin sign U+212A); any other non-ASCII code
  point lowers to non-ASCII code points and is left as it is, which no comparison with
  an ASCII name can tell apart.
\<close>

definition lower_cp :: "nat \<Rightarrow> pystr" where
  "lower_cp c =
     (if 65 \<le> c \<and> c \<le> 90 then [c + 32]
      else if c = 0x130 then [0x69, 0x307]
      else if c = 0x212A then [0x6B]
      else [c])"

definition py_lower :: "pystr \<Rightarrow> pystr" where
  "py_lower s = concat (map lower_cp s)"

section \<open>\<^verbatim>\<open>urllib.parse.unquote_plus\<close>\<close>

text \<open>
  \<^verbatim>\<open>unquote_plus(s)\<close> is \<^verbatim>\<open>unquote(s.replace('+', ' '))\<close>.  \<^verbatim>\<open>unquote\<close> returns a string
  without \<^verbatim>\<open>%\<close> as it is; otherwise every maximal run of ASCII characters is turned into
  bytes (\<^verbatim>\<open>%XX\<close> with two hexadecimal digits becomes one byte, any other \<^verbatim>\<open>%\<close> stays) and
  the bytes are decoded as UTF-8 with \<^verbatim>\<open>errors='replace'\<close>; the characters between the
  runs are copied.
\<close>

definition is_hexdig :: "nat \<Rightarrow> bool" where
  "is_hexdig c = ((48 \<le> c \<and> c \<le> 57) \<or> (65 \<le> c \<and> c \<le> 70) \<or> (97 \<le> c \<and> c \<le> 102))"

definition hexval :: "nat \<Rightarrow> nat" where
  "hexval c = (if c \<le> 57 then c - 48 else if c \<le> 70 then c - 55 else c - 87)"

fun unquote_to_bytes :: "pystr \<Rightarrow> nat list" where
  "unquote_to_bytes (c # h1 # h2 # r) =
     (if c = 37 \<and> is_hexdig h1 \<and> is_hexdig h2
      then (16 * hexval h1 + hexval h2) # unquote_to_bytes r
      else c # unquote_to_bytes (h1 # h2 # r))"
| "unquote_to_bytes s = s"

definition is_cont :: "nat \<Rightarrow> bool" where
  "is_cont b = (0x80 \<le> b \<and> b < 0xC0)"

text \<open>The second byte of a three-byte and of a four-byte sequence, given the first.\<close>

definition ok2_of3 :: "nat \<Rightarrow> nat \<Rightarrow> bool" where
  "ok2_of3 b b2 = (is_cont b2 \<and> (if b2 < 0xA0 then b \<noteq> 0xE0 else b \<noteq> 0xED))"

definition ok2_of4 :: "nat \<Rightarrow> nat \<Rightarrow> bool" where
  "ok2_of4 b b2 = (is_cont b2 \<and> (if b2 < 0x90 then b \<noteq> 0xF0 else b \<noteq> 0xF4))"

text \<open>
  \<^verbatim>\<open>bytes.decode('utf-8', 'replace')\<close>: an invalid start byte, and the valid beginning of a
  sequence that the next byte breaks or that the end of the data cuts, each become one
  U+FFFD.
\<close>

fun utf8_decode_replace :: "nat list \<Rightarrow> pystr" where
  "utf8_decode_replace [] = []"
| "utf8_decode_replace (b # r) =
     (if b < 0x80 then b # utf8_decode_replace r
      else if b < 0xC2 then 0xFFFD # utf8_decode_replace r
      else if b < 0xE0 then
        (case r of
           [] \<Rightarrow> [0xFFFD]
         | b2 # r2 \<Rightarrow>
             if is_cont b2 then ((b - 0xC0) * 64 + (b2 - 0x80)) # utf8_decode_replace r2
             else 0xFFFD # utf8_decode_replace r)
      else if b < 0xF0 then
        (case r of
           [] \<Rightarrow> [0xFFFD]
         | b2 # r2 \<Rightarrow>
             if ok2_of3 b b2 then
               (case r2 of
                  [] \<Rightarrow> [0xFFFD]
                | b3 # r3 \<Rightarrow>
                    if is_cont b3
                    then ((b - 0xE0) * 4096 + (b2 - 0x80) * 64 + (b3 - 0x80)) # utf8_decode_replace r3
                    else 0xFFFD # utf8_decode_replace r2)
             else 0xFFFD # utf8_decode_replace r)
      else if b < 0xF5 then
        (case r of
           [] \<Rightarrow> [0xFFFD]
         | b2 # r2 \<Rightarrow>
             if ok2_of4 b b2 then
               (case r2 of
                  [] \<Rightarrow> [0xFFFD]
                | b3 # r3 \<Rightarrow>
                    if is_cont b3 then
                      (case r3 of
                         [] \<Rightarrow> [0xFFFD]
                       | b4 # r4 \<Rightarrow>
                           if is_cont b4
                           then ((b - 0xF0) * 262144 + (b2 - 0x80) * 4096 + (b3 - 0x80) * 64 + (b4 - 0x80))
                                  # utf8_decode_replace r4
                           else 0xFFFD # utf8_decode_replace r3)
                    else 0xFFFD # utf8_decode_replace r2)
             else 0xFFFD # utf8_decode_replace r)
      else 0xFFFD # utf8_decode_replace r)"

definition is_ascii :: "nat \<Rightarrow> bool" where
  "is_ascii c = (c < 128)"

function generate_unquoted_parts :: "pystr \<Rightarrow> pystr" where
  "generate_unquoted_parts [] = []"
| "generate_unquoted_parts (c # cs) =
     (if is_ascii c
      then utf8_decode_replace (unquote_to_bytes (takeWhile is_ascii (c # cs)))
             @ generate_unquoted_parts (dropWhile is_ascii cs)
      else c # generate_unquoted_parts cs)"
  by pat_completeness auto
termination
  by (relation "measure length") (auto simp: less_Suc_eq_le length_dropWhile_le)

definition unquote :: "pystr \<Rightarrow> pystr" where
  "unquote s = (if 37 \<notin> set s then s else generate_unquoted_parts s)"

definition unquote_plus :: "pystr \<Rightarrow> py_exception + pystr" where
  "unquote_plus s = Inr (unquote (map (\<lambda>c. if c = 43 then 32 else c) s))"

section \<open>The fragment of \<^verbatim>\<open>re\<close> that the signatures use\<close>

text \<open>
  A compiled pattern of the fragment is a sequence of atoms, each with a repetition.
  The atoms are a literal, a literal under \<^verbatim>\<open>IGNORECASE\<close>, a negated one-character
  class \<^verbatim>\<open>[^c]\<close>, the dot, \<^verbatim>\<open>\w\<close> and \<^verbatim>\<open>\s\<close>; the repetitions are none, \<^verbatim>\<open>*\<close>, \<^verbatim>\<open>*?\<close>
  and \<^verbatim>\<open>+\<close>.
\<close>

datatype atom = Lit nat | LitIC nat | NotLit nat | NotLitIC nat | Dot | Word | Space

datatype quant = One | Star | LazyStar | Plus

type_synonym item = "atom \<times> quant"

definition ascii_lower :: "nat \<Rightarrow> nat" where
  "ascii_lower c = (if 65 \<le> c \<and> c \<le> 90 then c + 32 else c)"

text \<open>
  The lower case that the matcher computes for a character of the text, as far as it
  can be an ASCII character: besides the ASCII capitals, U+0130 lowers to \<^verbatim>\<open>i\<close> and the
  Kelvin sign to \<^verbatim>\<open>k\<close>.
\<close>

definition sre_lower :: "nat \<Rightarrow> nat" where
  "sre_lower c = (if c = 0x130 then 0x69 else if c = 0x212A then 0x6B else ascii_lower c)"

text \<open>
  A lower-cased ASCII literal of an \<^verbatim>\<open>IGNORECASE\<close> pattern against a character of the
  text; \<^verbatim>\<open>i\<close> also matches the dotless i (U+0131) and \<^verbatim>\<open>s\<close> the long s (U+017F).
\<close>

definition ic_eq :: "nat \<Rightarrow> nat \<Rightarrow> bool" where
  "ic_eq lo x = (sre_lower x = lo \<or> (lo = 0x69 \<and> x = 0x131) \<or> (lo = 0x73 \<and> x = 0x17F))"

definition is_space :: "nat \<Rightarrow> bool" where
  "is_space c =
     ((9 \<le> c \<and> c \<le> 13) \<or> (28 \<le> c \<and> c \<le> 32) \<or> c = 0x85 \<or> c = 0xA0 \<or> c = 0x1680
      \<or> (0x2000 \<le> c \<and> c \<le> 0x200A) \<or> c = 0x2028 \<or> c = 0x2029 \<or> c = 0x202F
      \<or> c = 0x205F \<or> c = 0x3000)"

definition is_ascii_alnum :: "nat \<Rightarrow> bool" where
  "is_ascii_alnum c = ((48 \<le> c \<and> c \<le> 57) \<or> (65 \<le> c \<and> c \<le> 90) \<or> (97 \<le> c \<and> c \<le> 122))"

definition is_word :: "py_runtime \<Rightarrow> nat \<Rightarrow> bool" where
  "is_word rt c = (if c < 128 then is_ascii_alnum c \<or> c = 95 else unicode_isalnum rt c)"

fun atom_ok :: "py_runtime \<Rightarrow> atom \<Rightarrow> nat \<Rightarrow> bool" where
  "atom_ok rt (Lit c) x = (x = c)"
| "atom_ok rt (LitIC c) x = ic_eq c x"
| "atom_ok rt (NotLit c) x = (x \<noteq> c)"
| "atom_ok rt (NotLitIC c) x = (\<not> ic_eq c x)"
| "atom_ok rt Dot x = (x \<noteq> 10)"
| "atom_ok rt Word x = is_word rt x"
| "atom_ok rt Space x = is_space x"

subsection \<open>Compiling a pattern\<close>

text \<open>
  The characters that are not literals for the parser:
  \<^verbatim>\<open>( ) | ^ $ { } * + ? [ ]\<close>, the dot and the backslash.
\<close>

definition is_plain :: "nat \<Rightarrow> bool" where
  "is_plain c = (c < 128 \<and> c \<notin> set [40, 41, 124, 94, 36, 123, 125, 42, 43, 63, 91, 93, 46, 92])"

definition lit :: "bool \<Rightarrow> nat \<Rightarrow> atom" where
  "lit ignorecase c = (if ignorecase then LitIC (ascii_lower c) else Lit c)"

definition notlit :: "bool \<Rightarrow> nat \<Rightarrow> atom" where
  "notlit ignorecase c = (if ignorecase then NotLitIC (ascii_lower c) else NotLit c)"

text \<open>One atom at the head of the pattern; \<open>None\<close> outside the fragment.\<close>

definition parse_atom :: "bool \<Rightarrow> pystr \<Rightarrow> (atom \<times> pystr) option" where
  "parse_atom ignorecase s =
     (case s of
        [] \<Rightarrow> None
      | c # cs \<Rightarrow>
          if c = 92 then
            (case cs of
               [] \<Rightarrow> None
             | e # r \<Rightarrow>
                 if e = 119 then Some (Word, r)
                 else if e = 115 then Some (Space, r)
                 else if is_ascii_alnum e \<or> 128 \<le> e then None
                 else Some (lit ignorecase e, r))
          else if c = 91 then
            (case cs of
               n # x # b # r \<Rightarrow>
                 if n = 94 \<and> b = 93 \<and> is_plain x then Some (notlit ignorecase x, r) else None
             | _ \<Rightarrow> None)
          else if c = 46 then Some (Dot, cs)
          else if is_plain c then Some (lit ignorecase c, cs)
          else None)"

definition starts_with_repeat :: "pystr \<Rightarrow> bool" where
  "starts_with_repeat s = (case s of [] \<Rightarrow> False | q # _ \<Rightarrow> q \<in> set [42, 43, 63, 123])"

text \<open>The repetition after an atom; \<open>None\<close> outside the fragment.\<close>

definition parse_quant :: "pystr \<Rightarrow> (quant \<times> pystr) option" where
  "parse_quant s =
     (case s of
        [] \<Rightarrow> Some (One, [])
      | q # r \<Rightarrow>
          if q = 42 then
            (case r of
               [] \<Rightarrow> Some (Star, [])
             | l # r' \<Rightarrow>
                 if l = 63 then (if starts_with_repeat r' then None else Some (LazyStar, r'))
                 else if starts_with_repeat r then None
                 else Some (Star, r))
          else if q = 43 then (if starts_with_repeat r then None else Some (Plus, r))
          else if q = 63 \<or> q = 123 then None
          else Some (One, s))"

function parse_items :: "bool \<Rightarrow> pystr \<Rightarrow> item list option" where
  "parse_items ignorecase s =
     (if s = [] then Some []
      else
        (case parse_atom ignorecase s of
           None \<Rightarrow> None
         | Some (a, r) \<Rightarrow>
             (case parse_quant r of
                None \<Rightarrow> None
              | Some (q, r') \<Rightarrow>
                  (case parse_items ignorecase r' of
                     None \<Rightarrow> None
                   | Some is \<Rightarrow> Some ((a, q) # is)))))"
  by pat_completeness auto
termination
proof (relation "measure (\<lambda>(ignorecase, s). length s)")
  show "wf (measure (\<lambda>(ignorecase, s). length s))"
    by simp
next
  fix ignorecase :: bool and s :: pystr and x2 a r x2a q r'
  assume a: "parse_atom ignorecase s = Some x2" "(a, r) = x2"
    and q: "parse_quant r = Some x2a" "(q, r') = x2a"
  from a have "length r < length s"
    by (auto simp: parse_atom_def split: list.splits if_splits)
  moreover from q have "length r' \<le> length r"
    by (auto simp: parse_quant_def split: list.splits if_splits)
  ultimately show "((ignorecase, r'), (ignorecase, s)) \<in> measure (\<lambda>(ignorecase, s). length s)"
    by simp
qed

declare parse_items.simps [simp del]

text \<open>\<^verbatim>\<open>re.compile(pattern, re.IGNORECASE)\<close>.\<close>

definition re_compile_ignorecase :: "pystr \<Rightarrow> item list option" where
  "re_compile_ignorecase p = parse_items True p"

subsection \<open>Matching\<close>

text \<open>
  The backtracking matcher at one start position: the atoms are tried in order, a
  greedy repetition first takes one more character and then gives up, a lazy one first
  gives up.  The result is the length of the first match found.  With \<open>adv\<close> (the
  matcher's \<^verbatim>\<open>must_advance\<close>) an empty match is refused.
\<close>

fun rmatch :: "py_runtime \<Rightarrow> bool \<Rightarrow> item list \<Rightarrow> pystr \<Rightarrow> nat \<Rightarrow> nat option" where
  "rmatch rt adv [] s k = (if adv \<and> k = 0 then None else Some k)"
| "rmatch rt adv ((a, One) # r) s k =
     (case s of
        [] \<Rightarrow> None
      | c # cs \<Rightarrow> if atom_ok rt a c then rmatch rt adv r cs (Suc k) else None)"
| "rmatch rt adv ((a, Plus) # r) s k =
     (case s of
        [] \<Rightarrow> None
      | c # cs \<Rightarrow> if atom_ok rt a c then rmatch rt adv ((a, Star) # r) cs (Suc k) else None)"
| "rmatch rt adv ((a, Star) # r) s k =
     (case s of
        [] \<Rightarrow> rmatch rt adv r s k
      | c # cs \<Rightarrow>
          if atom_ok rt a c
          then (case rmatch rt adv ((a, Star) # r) cs (Suc k) of
                  Some n \<Rightarrow> Some n
                | None \<Rightarrow> rmatch rt adv r s k)
          else rmatch rt adv r s k)"
| "rmatch rt adv ((a, LazyStar) # r) s k =
     (case rmatch rt adv r s k of
        Some n \<Rightarrow> Some n
      | None \<Rightarrow>
          (case s of
             [] \<Rightarrow> None
           | c # cs \<Rightarrow>
               if atom_ok rt a c then rmatch rt adv ((a, LazyStar) # r) cs (Suc k) else None))"

text \<open>
  The scan of \<^verbatim>\<open>findall\<close>: \<open>skip\<close> characters still belong to the match before; then
  the leftmost match from here on is taken, and after an empty match the same position is
  tried once more for a match that is not empty.
\<close>

fun scan :: "py_runtime \<Rightarrow> item list \<Rightarrow> nat \<Rightarrow> pystr \<Rightarrow> pystr list" where
  "scan rt p skip [] =
     (if skip = 0 then (case rmatch rt False p [] 0 of None \<Rightarrow> [] | Some n \<Rightarrow> [[]]) else [])"
| "scan rt p (Suc skip) (c # cs) = scan rt p skip cs"
| "scan rt p 0 (c # cs) =
     (case rmatch rt False p (c # cs) 0 of
        None \<Rightarrow> scan rt p 0 cs
      | Some (Suc n) \<Rightarrow> take (Suc n) (c # cs) # scan rt p n cs
      | Some 0 \<Rightarrow>
          [] # (case rmatch rt True p (c # cs) 0 of
                  None \<Rightarrow> scan rt p 0 cs
                | Some m \<Rightarrow> take m (c # cs) # scan rt p (m - 1) cs))"

text \<open>\<^verbatim>\<open>pattern.findall(string)\<close> for a pattern without groups.\<close>

definition findall :: "py_runtime \<Rightarrow> item list \<Rightarrow> pystr \<Rightarrow> pystr list" where
  "findall rt p s = scan rt p 0 s"

section \<open>The detector (\<^verbatim>\<open>xss_detector.py\<close>)\<close>

subsection \<open>The signature catalogue\<close>

text \<open>The backslash of a raw pattern string.\<close>

definition backslash :: string where
  "backslash = [CHR 0x5C]"

text \<open>\<^verbatim>\<open>self.xss_patterns\<close>, in the order of the source (indices 0 to 25).\<close>

definition xss_patterns :: "pystr list" where
  "xss_patterns = map str
     [''<script[^>]*>.*?</script>'',
      ''<script[^>]*>'',
      ''javascript:'',
      ''on'' @ backslash @ ''w+'' @ backslash @ ''s*='',
      ''onerror'' @ backslash @ ''s*='',
      ''onload'' @ backslash @ ''s*='',
      ''onclick'' @ backslash @ ''s*='',
      ''onmouseover'' @ backslash @ ''s*='',
      ''alert'' @ backslash @ ''s*'' @ backslash @ ''('',
      ''prompt'' @ backslash @ ''s*'' @ backslash @ ''('',
      ''confirm'' @ backslash @ ''s*'' @ backslash @ ''('',
      ''document'' @ backslash @ ''.cookie'',
      ''document'' @ backslash @ ''.write'',
      ''eval'' @ backslash @ ''s*'' @ backslash @ ''('',
      ''<iframe[^>]*>'',
      ''<object[^>]*>'',
      ''<embed[^>]*>'',
      ''<img[^>]*onerror'',
      ''<svg[^>]*onload'',
      ''data:'' @ backslash @ ''s*text/html'',
      ''vbscript:'',
      ''livescript:'',
      ''String'' @ backslash @ ''.fromCharCode'',
      ''unescape'' @ backslash @ ''s*'' @ backslash @ ''('',
      ''setTimeout'' @ backslash @ ''s*'' @ backslash @ ''('',
      ''setInterval'' @ backslash @ ''s*'' @ backslash @ ''('']"

text \<open>
  \<^verbatim>\<open>self.compiled_patterns\<close>.  A pattern that did not compile would make the constructor
  raise; \<open>compiled_patterns_ok\<close> below shows that all 26 compile.
\<close>

definition compiled_patterns :: "item list list" where
  "compiled_patterns =
     concat (map (\<lambda>p. case re_compile_ignorecase p of None \<Rightarrow> [] | Some c \<Rightarrow> [c]) xss_patterns)"

subsection \<open>State and results\<close>

record detected_pattern =
  pattern_id :: nat
  pattern :: pystr
  matches :: "pystr list"

record attack_info =
  ai_timestamp :: pystr
  ai_source_ip :: pystr
  ai_url :: pystr
  ai_detected_patterns :: "detected_pattern list"
  ai_risk_level :: pystr
  ai_content_sample :: pystr

text \<open>
  The dictionary that \<^verbatim>\<open>detect_xss\<close> returns; the key \<^verbatim>\<open>attack_info\<close> is there on a
  detection only, the key \<^verbatim>\<open>location\<close> is added by \<^verbatim>\<open>analyze_http_request\<close>.
\<close>

record detect_result =
  detected :: bool
  patterns :: "detected_pattern list"
  risk_level :: pystr
  attack_info :: "attack_info option"
  location :: "pystr option"

text \<open>
  The detector object, together with the records that it has handed to the module's
  logger (level and message).  The logger passes each record to its two handlers, the
  console and the file \<^verbatim>\<open>xss_detection.log\<close>; the file itself is followed where the code
  writes a file of its own, in \<^verbatim>\<open>save_log_to_file\<close>.
\<close>

record XSSDetector =
  detection_count :: nat
  attack_log :: "attack_info list"
  logged :: "(pystr \<times> pystr) list"

record request_verdict =
  v_detected :: bool
  results :: "detect_result list"
  total_detections :: nat

record statistics =
  st_total_detections :: nat
  risk_levels :: "(pystr \<times> nat) list"
  recent_attacks :: "attack_info list"
  patterns_loaded :: nat

definition XSSDetector_init :: XSSDetector where
  "XSSDetector_init =
     \<lparr>detection_count = 0, attack_log = [],
      logged = [(str ''INFO'',
                 str ''XSS Detector initialized with '' @ py_str_nat (length xss_patterns)
                   @ str '' patterns'')]\<rparr>"

subsection \<open>\<^verbatim>\<open>_calculate_risk_level\<close> and \<^verbatim>\<open>_log_attack\<close>\<close>

definition high_risk_patterns :: "nat list" where
  "high_risk_patterns = [0, 1, 2, 3, 4, 5, 6, 10, 11, 12]"

definition medium_risk_patterns :: "nat list" where
  "medium_risk_patterns = [7, 8, 9, 13, 14, 15, 16]"

definition calculate_risk_level :: "detected_pattern list \<Rightarrow> pystr" where
  "calculate_risk_level ps =
     (let pattern_ids = map pattern_id ps in
      if list_ex (\<lambda>pid. pid \<in> set high_risk_patterns) pattern_ids then str ''high''
      else if list_ex (\<lambda>pid. pid \<in> set medium_risk_patterns) pattern_ids then str ''medium''
      else str ''low'')"

definition log_attack :: "XSSDetector \<Rightarrow> attack_info \<Rightarrow> XSSDetector" where
  "log_attack d info =
     d\<lparr>logged := logged d @
         [(str ''WARNING'',
           str ''XSS ATTACK DETECTED! ''
             @ str ''Source: '' @ ai_source_ip info @ str '' | ''
             @ str ''URL: '' @ ai_url info @ str '' | ''
             @ str ''Risk: '' @ ai_risk_level info @ str '' | ''
             @ str ''Patterns: '' @ py_str_nat (length (ai_detected_patterns info)))]\<rparr>"

subsection \<open>\<^verbatim>\<open>detect_xss\<close>\<close>

text \<open>
  The loop over \<^verbatim>\<open>enumerate(self.compiled_patterns)\<close>, one step.  The index is in the
  range of \<^verbatim>\<open>self.xss_patterns\<close>: the two lists have the same length
  (\<open>compiled_patterns_ok\<close>).
\<close>

definition check_pattern ::
  "py_runtime \<Rightarrow> pystr \<Rightarrow> detected_pattern list \<Rightarrow> nat \<times> item list \<Rightarrow> detected_pattern list" where
  "check_pattern rt decoded_content detected_patterns ip =
     (let ms = findall rt (snd ip) decoded_content in
      if ms \<noteq> []
      then detected_patterns @
             [\<lparr>pattern_id = fst ip, pattern = xss_patterns ! fst ip, matches = take 5 ms\<rparr>]
      else detected_patterns)"

definition not_detected :: detect_result where
  "not_detected =
     \<lparr>detected = False, patterns = [], risk_level = str ''low'', attack_info = None,
      location = None\<rparr>"

definition detect_xss ::
  "py_runtime \<Rightarrow> XSSDetector \<Rightarrow> pystr \<Rightarrow> pystr \<Rightarrow> pystr \<Rightarrow> detect_result \<times> XSSDetector" where
  "detect_xss rt d content source_ip url =
     (if content = [] then (not_detected, d)
      else
        let decoded_content = (case unquote_plus content of Inr s \<Rightarrow> s | Inl e \<Rightarrow> content);
            detected_patterns =
              foldl (check_pattern rt decoded_content) [] (enumerate 0 compiled_patterns);
            is_detected = (length detected_patterns > 0)
        in
          if is_detected then
            let d1 = d\<lparr>detection_count := detection_count d + 1\<rparr>;
                risk = calculate_risk_level detected_patterns;
                info = \<lparr>ai_timestamp = datetime_now rt (detection_count d1),
                        ai_source_ip = source_ip,
                        ai_url = url,
                        ai_detected_patterns = detected_patterns,
                        ai_risk_level = risk,
                        ai_content_sample = take 200 decoded_content\<rparr>;
                d2 = d1\<lparr>attack_log := attack_log d1 @ [info]\<rparr>;
                d3 = log_attack d2 info
            in (\<lparr>detected = True, patterns = detected_patterns, risk_level = risk,
                 attack_info = Some info, location = None\<rparr>, d3)
          else (not_detected, d))"

subsection \<open>\<^verbatim>\<open>analyze_http_request\<close>\<close>

text \<open>
  The headers are the items of the dictionary in its order.  The loop state is the list
  of results and the detector.
\<close>

definition inspected_headers :: "pystr list" where
  "inspected_headers = map str [''user-agent'', ''referer'', ''x-forwarded-for'']"

definition check_header ::
  "py_runtime \<Rightarrow> pystr \<Rightarrow> pystr \<Rightarrow> detect_result list \<times> XSSDetector \<Rightarrow> pystr \<times> pystr
     \<Rightarrow> detect_result list \<times> XSSDetector" where
  "check_header rt source_ip url st h =
     (if py_lower (fst h) \<in> set inspected_headers then
        let (header_result, d') = detect_xss rt (snd st) (snd h) source_ip url in
        if detected header_result
        then (fst st @ [header_result\<lparr>location := Some (str ''Header-'' @ fst h)\<rparr>], d')
        else (fst st, d')
      else st)"

definition analyze_http_request ::
  "py_runtime \<Rightarrow> XSSDetector \<Rightarrow> pystr \<Rightarrow> pystr \<Rightarrow> (pystr \<times> pystr) list \<Rightarrow> pystr \<Rightarrow> pystr
     \<Rightarrow> request_verdict \<times> XSSDetector" where
  "analyze_http_request rt d method url headers body source_ip =
     (let (url_result, d1) = detect_xss rt d url source_ip url;
          results1 = (if detected url_result then [url_result\<lparr>location := Some (str ''URL'')\<rparr>] else []);
          (results2, d2) = foldl (check_header rt source_ip url) (results1, d1) headers;
          (results3, d3) =
            (if body \<noteq> [] then
               let (body_result, d') = detect_xss rt d2 body source_ip url in
               if detected body_result
               then (results2 @ [body_result\<lparr>location := Some (str ''Body'')\<rparr>], d')
               else (results2, d')
             else (results2, d2))
      in (\<lparr>v_detected = (length results3 > 0), results = results3,
           total_detections = length results3\<rparr>, d3))"

subsection \<open>\<^verbatim>\<open>get_statistics\<close>\<close>

text \<open>\<^verbatim>\<open>risk_levels[key] += 1\<close> on a dictionary kept as a list of items.\<close>

fun dict_incr :: "(pystr \<times> nat) list \<Rightarrow> pystr \<Rightarrow> py_exception + (pystr \<times> nat) list" where
  "dict_incr [] key = Inl (KeyError key)"
| "dict_incr ((k, v) # kvs) key =
     (if k = key then Inr ((k, v + 1) # kvs)
      else (case dict_incr kvs key of Inl e \<Rightarrow> Inl e | Inr kvs' \<Rightarrow> Inr ((k, v) # kvs')))"

fun count_risk_levels ::
  "(pystr \<times> nat) list \<Rightarrow> attack_info list \<Rightarrow> py_exception + (pystr \<times> nat) list" where
  "count_risk_levels rl [] = Inr rl"
| "count_risk_levels rl (attack # attacks) =
     (case dict_incr rl (ai_risk_level attack) of
        Inl e \<Rightarrow> Inl e
      | Inr rl' \<Rightarrow> count_risk_levels rl' attacks)"

definition get_statistics :: "XSSDetector \<Rightarrow> py_exception + statistics" where
  "get_statistics d =
     (case count_risk_levels [(str ''high'', 0), (str ''medium'', 0), (str ''low'', 0)] (attack_log d) of
        Inl e \<Rightarrow> Inl e
      | Inr rl \<Rightarrow>
          Inr \<lparr>st_total_detections = detection_count d,
               risk_levels = rl,
               recent_attacks = drop (length (attack_log d) - 10) (attack_log d),
               patterns_loaded = length xss_patterns\<rparr>)"

subsection \<open>\<^verbatim>\<open>save_log_to_file\<close>\<close>

















section \<open>Notions for the statements\<close>

text \<open>The content after the decoding step of \<^verbatim>\<open>detect_xss\<close>.\<close>

definition decoded :: "pystr \<Rightarrow> pystr" where
  "decoded content = (case unquote_plus content of Inr s \<Rightarrow> s | Inl e \<Rightarrow> content)"

text \<open>The indices of the signatures that match the decoded content.\<close>

definition matched_ids :: "py_runtime \<Rightarrow> pystr \<Rightarrow> nat list" where
  "matched_ids rt content =
     filter (\<lambda>i. findall rt (compiled_patterns ! i) (decoded content) \<noteq> [])
       [0..<length compiled_patterns]"

text \<open>The entry that the loop of \<^verbatim>\<open>detect_xss\<close> appends for a signature that matches.\<close>

definition entry :: "py_runtime \<Rightarrow> pystr \<Rightarrow> nat \<times> item list \<Rightarrow> detected_pattern" where
  "entry rt dc ip =
     \<lparr>pattern_id = fst ip, pattern = xss_patterns ! fst ip,
      matches = take 5 (findall rt (snd ip) dc)\<rparr>"

text \<open>The list \<^verbatim>\<open>detected_patterns\<close> that \<^verbatim>\<open>detect_xss\<close> builds for a content.\<close>

definition found_patterns :: "py_runtime \<Rightarrow> pystr \<Rightarrow> detected_pattern list" where
  "found_patterns rt content =
     foldl (check_pattern rt (decoded content)) [] (enumerate 0 compiled_patterns)"

text \<open>The order of the risk levels.\<close>

definition risk_rank :: "pystr \<Rightarrow> nat" where
  "risk_rank r = (if r = str ''high'' then 2 else if r = str ''medium'' then 1 else 0)"

text \<open>
  A runtime for concrete runs: no code point beyond ASCII is alphanumeric, and the clock
  always reads the same.
\<close>

definition ascii_runtime :: py_runtime where
  "ascii_runtime =
     \<lparr>unicode_isalnum = (\<lambda>c. False), datetime_now = (\<lambda>n. str ''2025-01-01T00:00:00'')\<rparr>"

text \<open>A run of literals of an \<^verbatim>\<open>IGNORECASE\<close> pattern, written in lower case.\<close>

definition lits :: "string \<Rightarrow> item list" where
  "lits s = map (\<lambda>c. (LitIC (of_char c), One)) s"

text \<open>
  A run of the detector: the calls of \<^verbatim>\<open>detect_xss\<close>, each with its content, source
  address and URL, one after the other.
\<close>

definition detect_all :: "py_runtime \<Rightarrow> XSSDetector \<Rightarrow> (pystr \<times> pystr \<times> pystr) list \<Rightarrow> XSSDetector" where
  "detect_all rt d calls =
     foldl (\<lambda>d' call. snd (detect_xss rt d' (fst call) (fst (snd call)) (snd (snd call)))) d calls"

text \<open>The calls of a run that detect.\<close>

definition detecting :: "py_runtime \<Rightarrow> (pystr \<times> pystr \<times> pystr) list \<Rightarrow> (pystr \<times> pystr \<times> pystr) list" where
  "detecting rt calls = filter (\<lambda>call. fst call \<noteq> [] \<and> matched_ids rt (fst call) \<noteq> []) calls"

text \<open>A content holds a well-formed escape: a \<^verbatim>\<open>%\<close> with two hexadecimal digits after it.\<close>

fun has_escape :: "pystr \<Rightarrow> bool" where
  "has_escape (c # h1 # h2 # r) =
     ((c = 37 \<and> is_hexdig h1 \<and> is_hexdig h2) \<or> has_escape (h1 # h2 # r))"
| "has_escape s = False"

text \<open>\<^verbatim>\<open>s.replace('+', ' ')\<close>.\<close>

definition plus_to_space :: "pystr \<Rightarrow> pystr" where
  "plus_to_space s = map (\<lambda>c. if c = 43 then 32 else c) s"




text \<open>Every record of a log carries one of the three risk levels.\<close>

definition known_risks :: "attack_info list \<Rightarrow> bool" where
  "known_risks log =
     list_all (\<lambda>a. ai_risk_level a \<in> {str ''high'', str ''medium'', str ''low''}) log"











section \<open>Notions for the proofs\<close>

text \<open>
  The words that a compiled pattern matches, without the order in which the matcher tries
  them.
\<close>

fun accepts :: "py_runtime \<Rightarrow> item list \<Rightarrow> pystr \<Rightarrow> bool" where
  "accepts rt [] w = (w = [])"
| "accepts rt ((a, One) # r) w =
     (case w of [] \<Rightarrow> False | c # cs \<Rightarrow> atom_ok rt a c \<and> accepts rt r cs)"
| "accepts rt ((a, Plus) # r) w =
     (case w of [] \<Rightarrow> False | c # cs \<Rightarrow> atom_ok rt a c \<and> accepts rt ((a, Star) # r) cs)"
| "accepts rt ((a, Star) # r) w =
     (accepts rt r w \<or> (case w of [] \<Rightarrow> False | c # cs \<Rightarrow> atom_ok rt a c \<and> accepts rt ((a, Star) # r) cs))"
| "accepts rt ((a, LazyStar) # r) w =
     (accepts rt r w \<or> (case w of [] \<Rightarrow> False | c # cs \<Rightarrow> atom_ok rt a c \<and> accepts rt ((a, LazyStar) # r) cs))"

text \<open>A pattern matches somewhere in a text.\<close>

definition found :: "py_runtime \<Rightarrow> item list \<Rightarrow> pystr \<Rightarrow> bool" where
  "found rt p s \<longleftrightarrow> (\<exists>u w v. s = u @ w @ v \<and> accepts rt p w)"

text \<open>
  The first step of the UTF-8 decoder on some bytes: it is decided by these bytes alone
  and consumes some of them, whatever follows; or the bytes are the beginning of a sequence
  that their end cuts short, which an ASCII byte after them would break.
\<close>

definition decided :: "nat list \<Rightarrow> bool" where
  "decided b \<longleftrightarrow>
     (\<exists>e n. 0 < n \<and> n \<le> length b
        \<and> (\<forall>Y. utf8_decode_replace (b @ Y) = e # utf8_decode_replace (drop n b @ Y)))"

definition cut_short :: "nat list \<Rightarrow> bool" where
  "cut_short b \<longleftrightarrow>
     utf8_decode_replace b = [0xFFFD]
       \<and> (\<forall>a Z. a < 0x80 \<longrightarrow> utf8_decode_replace (b @ a # Z) = 0xFFFD # a # utf8_decode_replace Z)"

text \<open>
  What a decoded text has in common with the decoding of a longer input: all of it, or
  all but a last U+FFFD.
\<close>

definition ext_ok :: "pystr \<Rightarrow> pystr \<Rightarrow> bool" where
  "ext_ok D D' \<longleftrightarrow> prefix D D' \<or> (\<exists>P. D = P @ [0xFFFD] \<and> prefix P D')"

text \<open>
  The end of a decoded content that a continuation of the content can still change: a
  percent sign with at most one hexadecimal digit after it (the beginning of an escape),
  possibly after the U+FFFD of a byte sequence that is cut short.
\<close>

definition junk_pct :: "pystr \<Rightarrow> bool" where
  "junk_pct t \<longleftrightarrow> t = [] \<or> t = [37] \<or> (\<exists>h. is_hexdig h \<and> t = [37, h])"

definition junk :: "pystr \<Rightarrow> bool" where
  "junk t \<longleftrightarrow> junk_pct t \<or> (\<exists>t'. t = 0xFFFD # t' \<and> junk_pct t')"

text \<open>A decoded content and the decoding of a longer content agree up to such an end.\<close>

definition stable :: "pystr \<Rightarrow> pystr \<Rightarrow> bool" where
  "stable D D' \<longleftrightarrow> (\<exists>P t. D = P @ t \<and> junk t \<and> prefix P D')"

text \<open>
  The last atom of a pattern is a literal that matches neither the percent sign nor
  U+FFFD, and if it matches a hexadecimal digit, the atom before it is a literal that does
  not match the percent sign.
\<close>

fun lit_one :: "item \<Rightarrow> nat option" where
  "lit_one (LitIC c, One) = Some c"
| "lit_one it = None"

definition hex_digits :: "nat list" where
  "hex_digits = [48..<58] @ [65..<71] @ [97..<103]"

definition tail_safe :: "item list \<Rightarrow> bool" where
  "tail_safe p =
     (case rev p of
        [] \<Rightarrow> False
      | i1 # r \<Rightarrow>
          (case lit_one i1 of
             None \<Rightarrow> False
           | Some c1 \<Rightarrow>
               \<not> ic_eq c1 37 \<and> \<not> ic_eq c1 0xFFFD
               \<and> (if list_ex (ic_eq c1) hex_digits
                   then (case r of
                           [] \<Rightarrow> False
                         | i0 # r' \<Rightarrow> (case lit_one i0 of None \<Rightarrow> False | Some c0 \<Rightarrow> \<not> ic_eq c0 37))
                   else True)))"




section \<open>The catalogue compiles\<close>

lemma compiled_patterns_eq:
  "compiled_patterns =
    [lits ''<script'' @ [(NotLitIC 62, Star), (LitIC 62, One), (Dot, LazyStar)] @ lits ''</script>'',
     lits ''<script'' @ [(NotLitIC 62, Star), (LitIC 62, One)],
     lits ''javascript:'',
     lits ''on'' @ [(Word, Plus), (Space, Star), (LitIC 61, One)],
     lits ''onerror'' @ [(Space, Star), (LitIC 61, One)],
     lits ''onload'' @ [(Space, Star), (LitIC 61, One)],
     lits ''onclick'' @ [(Space, Star), (LitIC 61, One)],
     lits ''onmouseover'' @ [(Space, Star), (LitIC 61, One)],
     lits ''alert'' @ [(Space, Star), (LitIC 40, One)],
     lits ''prompt'' @ [(Space, Star), (LitIC 40, One)],
     lits ''confirm'' @ [(Space, Star), (LitIC 40, One)],
     lits ''document.cookie'',
     lits ''document.write'',
     lits ''eval'' @ [(Space, Star), (LitIC 40, One)],
     lits ''<iframe'' @ [(NotLitIC 62, Star), (LitIC 62, One)],
     lits ''<object'' @ [(NotLitIC 62, Star), (LitIC 62, One)],
     lits ''<embed'' @ [(NotLitIC 62, Star), (LitIC 62, One)],
     lits ''<img'' @ [(NotLitIC 62, Star)] @ lits ''onerror'',
     lits ''<svg'' @ [(NotLitIC 62, Star)] @ lits ''onload'',
     lits ''data:'' @ [(Space, Star)] @ lits ''text/html'',
     lits ''vbscript:'',
     lits ''livescript:'',
     lits ''string.fromcharcode'',
     lits ''unescape'' @ [(Space, Star), (LitIC 40, One)],
     lits ''settimeout'' @ [(Space, Star), (LitIC 40, One)],
     lits ''setinterval'' @ [(Space, Star), (LitIC 40, One)]]"
  by code_simp

lemma compiled_patterns_ok:
  "length compiled_patterns = 26" "length xss_patterns = length compiled_patterns"
  by (simp_all add: compiled_patterns_eq xss_patterns_def)

text \<open>The facts that evaluate the decoder and the matcher on a concrete content.\<close>

lemmas eval_simps = findall_def ic_eq_def sre_lower_def ascii_lower_def is_space_def is_word_def
  is_ascii_alnum_def lits_def str_def decoded_def unquote_plus_def unquote_def

section \<open>What \<^verbatim>\<open>detect_xss\<close> computes\<close>

lemma foldl_check_pattern:
  "foldl (check_pattern rt dc) acc ips =
     acc @ map (entry rt dc) (filter (\<lambda>ip. findall rt (snd ip) dc \<noteq> []) ips)"
  by (induction ips arbitrary: acc) (simp_all add: check_pattern_def entry_def Let_def)

lemma fst_filter_enumerate:
  "map fst (filter (\<lambda>ip. Q (snd ip)) (enumerate n ps)) =
     filter (\<lambda>i. Q (ps ! (i - n))) [n..<n + length ps]"
proof (induction ps arbitrary: n)
  case Nil
  show ?case by simp
next
  case (Cons p ps)
  have "n < n + length (p # ps)"
    by simp
  then have "[n..<n + length (p # ps)] = n # [Suc n..<n + length (p # ps)]"
    by (rule upt_conv_Cons)
  moreover have "n + length (p # ps) = Suc n + length ps"
    by simp
  ultimately have split: "[n..<n + length (p # ps)] = n # [Suc n..<Suc n + length ps]"
    by (simp only:)
  have "filter (\<lambda>i. Q ((p # ps) ! (i - n))) [Suc n..<Suc n + length ps]
      = filter (\<lambda>i. Q (ps ! (i - Suc n))) [Suc n..<Suc n + length ps]"
  proof (rule filter_cong [OF refl])
    fix i assume "i \<in> set [Suc n..<Suc n + length ps]"
    then have "i - n = Suc (i - Suc n)" by auto
    then show "Q ((p # ps) ! (i - n)) = Q (ps ! (i - Suc n))" by simp
  qed
  with Cons.IH [of "Suc n"] show ?case
    unfolding split by simp
qed

text \<open>The indices in the result are the indices of the signatures that match.\<close>

lemma pattern_ids_found:
  "map pattern_id (found_patterns rt content) = matched_ids rt content"
proof -
  have "map pattern_id (found_patterns rt content)
      = map fst (filter (\<lambda>ip. findall rt (snd ip) (decoded content) \<noteq> [])
                  (enumerate 0 compiled_patterns))"
    by (simp add: found_patterns_def foldl_check_pattern entry_def comp_def)
  also have "\<dots> = matched_ids rt content"
    unfolding matched_ids_def
    using fst_filter_enumerate [of "\<lambda>p. findall rt p (decoded content) \<noteq> []" 0 compiled_patterns]
    by simp
  finally show ?thesis .
qed

lemma ex_nth_iff: "(\<exists>i\<in>{0..<length ps}. Q (ps ! i)) \<longleftrightarrow> (\<exists>p\<in>set ps. Q p)"
proof
  assume "\<exists>i\<in>{0..<length ps}. Q (ps ! i)"
  then obtain i where "i < length ps" "Q (ps ! i)" by auto
  then show "\<exists>p\<in>set ps. Q p" using nth_mem by blast
next
  assume "\<exists>p\<in>set ps. Q p"
  then obtain p where "p \<in> set ps" "Q p" by auto
  then obtain i where "i < length ps" "ps ! i = p" by (auto simp: in_set_conv_nth)
  with \<open>Q p\<close> show "\<exists>i\<in>{0..<length ps}. Q (ps ! i)" by auto
qed

lemma matched_ids_nonempty:
  "matched_ids rt content \<noteq> []
     \<longleftrightarrow> list_ex (\<lambda>p. findall rt p (decoded content) \<noteq> []) compiled_patterns"
  using ex_nth_iff [of compiled_patterns "\<lambda>p. findall rt p (decoded content) \<noteq> []"]
  by (simp add: matched_ids_def filter_empty_conv list_ex_iff)

lemma found_patterns_empty:
  "found_patterns rt content = [] \<longleftrightarrow> matched_ids rt content = []"
  using pattern_ids_found [of rt content] by (metis map_is_Nil_conv)

text \<open>The two ways out of \<^verbatim>\<open>detect_xss\<close>.\<close>

lemma detect_xss_unfold:
  "detect_xss rt d content source_ip url =
     (if content = [] \<or> found_patterns rt content = [] then (not_detected, d)
      else
        (let risk = calculate_risk_level (found_patterns rt content);
             info = \<lparr>ai_timestamp = datetime_now rt (detection_count d + 1),
                     ai_source_ip = source_ip, ai_url = url,
                     ai_detected_patterns = found_patterns rt content,
                     ai_risk_level = risk,
                     ai_content_sample = take 200 (decoded content)\<rparr>
         in (\<lparr>detected = True, patterns = found_patterns rt content, risk_level = risk,
              attack_info = Some info, location = None\<rparr>,
             d\<lparr>detection_count := detection_count d + 1,
               attack_log := attack_log d @ [info],
               logged := logged d @
                 [(str ''WARNING'',
                   str ''XSS ATTACK DETECTED! ''
                     @ str ''Source: '' @ source_ip @ str '' | ''
                     @ str ''URL: '' @ url @ str '' | ''
                     @ str ''Risk: '' @ risk @ str '' | ''
                     @ str ''Patterns: '' @ py_str_nat (length (found_patterns rt content)))]\<rparr>)))"
  by (simp add: detect_xss_def Let_def found_patterns_def decoded_def log_attack_def)

lemma detected_iff:
  "detected (fst (detect_xss rt d content source_ip url)) \<longleftrightarrow>
     content \<noteq> [] \<and> matched_ids rt content \<noteq> []"
  by (simp add: detect_xss_unfold Let_def not_detected_def found_patterns_empty)

lemma risk_level_eq:
  "risk_level (fst (detect_xss rt d content source_ip url)) =
     (if content = [] \<or> matched_ids rt content = [] then str ''low''
      else calculate_risk_level (found_patterns rt content))"
  by (simp add: detect_xss_unfold Let_def not_detected_def found_patterns_empty)

lemma detect_xss_clean:
  "content = [] \<or> matched_ids rt content = [] \<Longrightarrow>
   detect_xss rt d content source_ip url = (not_detected, d)"
  by (auto simp: detect_xss_unfold found_patterns_empty)

lemma detect_xss_log:
  "attack_log (snd (detect_xss rt d content source_ip url)) =
     attack_log d @
       (if content \<noteq> [] \<and> matched_ids rt content \<noteq> []
        then [\<lparr>ai_timestamp = datetime_now rt (detection_count d + 1),
               ai_source_ip = source_ip, ai_url = url,
               ai_detected_patterns = found_patterns rt content,
               ai_risk_level = calculate_risk_level (found_patterns rt content),
               ai_content_sample = take 200 (decoded content)\<rparr>]
        else [])"
  by (simp add: detect_xss_unfold Let_def found_patterns_empty)

subsection \<open>Concrete runs\<close>



lemma matched_script: "matched_ids ascii_runtime (str ''<script>'') = [1]"
  by (simp add: matched_ids_def compiled_patterns_eq upt_rec eval_simps)



lemma matched_comment: "matched_ids ascii_runtime (str ''/comment'') = []"
  by (simp add: matched_ids_def compiled_patterns_eq upt_rec eval_simps)

lemma matched_mozilla: "matched_ids ascii_runtime (str ''Mozilla'') = []"
  by (simp add: matched_ids_def compiled_patterns_eq upt_rec eval_simps)



subsection \<open>Runs of the detector and the statistics\<close>

lemma calculate_risk_level_cases:
  "calculate_risk_level ps \<in> {str ''high'', str ''medium'', str ''low''}"
  by (simp add: calculate_risk_level_def Let_def)

lemma detect_xss_known_risks:
  "known_risks (attack_log d) \<Longrightarrow> known_risks (attack_log (snd (detect_xss rt d content source_ip url)))"
  using calculate_risk_level_cases [of "found_patterns rt content"]
  by (simp add: detect_xss_log known_risks_def)

lemma detect_all_length:
  "length (attack_log (detect_all rt d calls)) = length (attack_log d) + length (detecting rt calls)"
proof (induction calls arbitrary: d)
  case Nil
  show ?case by (simp add: detect_all_def detecting_def)
next
  case (Cons call calls)
  have "detect_all rt d (call # calls)
      = detect_all rt (snd (detect_xss rt d (fst call) (fst (snd call)) (snd (snd call)))) calls"
    by (simp add: detect_all_def)
  then show ?case
    using Cons.IH [of "snd (detect_xss rt d (fst call) (fst (snd call)) (snd (snd call)))"]
    by (simp add: detect_xss_log detecting_def)
qed

lemma detect_all_known_risks:
  "known_risks (attack_log d) \<Longrightarrow> known_risks (attack_log (detect_all rt d calls))"
proof (induction calls arbitrary: d)
  case Nil
  then show ?case by (simp add: detect_all_def)
next
  case (Cons call calls)
  have "detect_all rt d (call # calls)
      = detect_all rt (snd (detect_xss rt d (fst call) (fst (snd call)) (snd (snd call)))) calls"
    by (simp add: detect_all_def)
  with Cons show ?case
    by (simp add: detect_xss_known_risks)
qed

lemma dict_incr_keys:
  "key \<in> fst ` set rl \<Longrightarrow> \<exists>rl'. dict_incr rl key = Inr rl' \<and> map fst rl' = map fst rl"
proof (induction rl)
  case Nil
  then show ?case by simp
next
  case (Cons kv rl)
  obtain k v where kv: "kv = (k, v)" by (cases kv)
  show ?case
  proof (cases "k = key")
    case True
    then show ?thesis by (simp add: kv)
  next
    case False
    with Cons.prems kv have "key \<in> fst ` set rl" by auto
    from Cons.IH [OF this] obtain rl' where "dict_incr rl key = Inr rl'" "map fst rl' = map fst rl"
      by blast
    with False show ?thesis by (simp add: kv)
  qed
qed

lemma count_risk_levels_ok:
  "list_all (\<lambda>a. ai_risk_level a \<in> fst ` set rl) log \<Longrightarrow> \<exists>rl'. count_risk_levels rl log = Inr rl'"
proof (induction log arbitrary: rl)
  case Nil
  show ?case by simp
next
  case (Cons a log)
  then obtain rl' where r: "dict_incr rl (ai_risk_level a) = Inr rl'" "map fst rl' = map fst rl"
    using dict_incr_keys [of "ai_risk_level a" rl] by auto
  from r(2) have "fst ` set rl' = fst ` set rl"
    by (metis set_map)
  with Cons.prems have "list_all (\<lambda>a. ai_risk_level a \<in> fst ` set rl') log"
    by simp
  from Cons.IH [OF this] r(1) show ?case by simp
qed

lemma get_statistics_ok:
  assumes "known_risks (attack_log d)"
  shows "\<exists>st. get_statistics d = Inr st
            \<and> recent_attacks st = drop (length (attack_log d) - 10) (attack_log d)
            \<and> st_total_detections st = detection_count d"
proof -
  from assms have "list_all (\<lambda>a. ai_risk_level a \<in> fst ` set [(str ''high'', 0::nat), (str ''medium'', 0), (str ''low'', 0)]) (attack_log d)"
    by (simp add: known_risks_def)
  from count_risk_levels_ok [OF this] obtain rl where
    "count_risk_levels [(str ''high'', 0), (str ''medium'', 0), (str ''low'', 0)] (attack_log d) = Inr rl"
    by blast
  then show ?thesis
    by (simp add: get_statistics_def)
qed

subsection \<open>Requests\<close>

lemma clean_headers_skip:
  assumes "list_all (\<lambda>h. matched_ids rt (snd h) = [])
       (filter (\<lambda>h. py_lower (fst h) \<in> set inspected_headers) headers)"
  shows "foldl (check_header rt source_ip url) (rs, d) headers = (rs, d)"
  using assms
proof (induction headers)
  case Nil
  show ?case by simp
next
  case (Cons h headers)
  then have "check_header rt source_ip url (rs, d) h = (rs, d)"
    by (auto simp: check_header_def detect_xss_clean not_detected_def)
  moreover from Cons.prems have "list_all (\<lambda>h. matched_ids rt (snd h) = [])
       (filter (\<lambda>h. py_lower (fst h) \<in> set inspected_headers) headers)"
    by (simp split: if_splits)
  ultimately show ?case
    using Cons.IH by simp
qed

subsection \<open>Decoding a content without a well-formed escape\<close>

lemma utf8_ascii: "list_all is_ascii b \<Longrightarrow> utf8_decode_replace b = b"
  by (induction b) (auto simp: is_ascii_def)

lemma no_escape_bytes: "\<not> has_escape s \<Longrightarrow> unquote_to_bytes s = s"
  by (induction s rule: unquote_to_bytes.induct) auto

lemma has_escape_appendI1: "has_escape a \<Longrightarrow> has_escape (a @ b)"
  by (induction a rule: has_escape.induct) auto

lemma has_escape_Cons: "has_escape s \<Longrightarrow> has_escape (c # s)"
  by (cases s rule: has_escape.cases) auto

lemma has_escape_appendI2: "has_escape b \<Longrightarrow> has_escape (a @ b)"
  by (induction a) (auto simp: has_escape_Cons)

lemma has_escape_takeWhile: "has_escape (takeWhile P s) \<Longrightarrow> has_escape s"
  using has_escape_appendI1 [of "takeWhile P s" "dropWhile P s"] by simp

lemma has_escape_dropWhile: "has_escape (dropWhile P s) \<Longrightarrow> has_escape s"
  using has_escape_appendI2 [of "dropWhile P s" "takeWhile P s"] by simp

lemma generate_unquoted_parts_id:
  "\<not> has_escape s \<Longrightarrow> generate_unquoted_parts s = s"
proof (induction s rule: generate_unquoted_parts.induct)
  case 1
  show ?case by simp
next
  case (2 c cs)
  show ?case
  proof (cases "is_ascii c")
    case True
    let ?r = "takeWhile is_ascii (c # cs)"
    have "\<not> has_escape ?r"
      using "2.prems" has_escape_takeWhile by blast
    then have "unquote_to_bytes ?r = ?r"
      by (rule no_escape_bytes)
    moreover have "list_all is_ascii ?r"
      by (simp add: list_all_iff) (meson set_takeWhileD)
    ultimately have run: "utf8_decode_replace (unquote_to_bytes ?r) = ?r"
      by (simp add: utf8_ascii)
    have "\<not> has_escape (dropWhile is_ascii cs)"
      using "2.prems" has_escape_dropWhile [of is_ascii cs] has_escape_Cons [of cs c] by auto
    with "2.IH"(1) True have "generate_unquoted_parts (dropWhile is_ascii cs) = dropWhile is_ascii cs"
      by simp
    with run True show ?thesis
      by simp
  next
    case False
    with 2 has_escape_Cons [of cs c] show ?thesis by auto
  qed
qed


lemma has_escape_percent: "has_escape s \<Longrightarrow> 37 \<in> set s"
  by (induction s rule: has_escape.induct) auto

section \<open>The matcher and the words of a pattern\<close>

lemma rmatch_sound:
  "rmatch rt adv p s k = Some n \<Longrightarrow> \<exists>m. n = k + m \<and> m \<le> length s \<and> accepts rt p (take m s)"
proof (induction rt adv p s k arbitrary: n rule: rmatch.induct)
  case (1 rt adv s k)
  then show ?case by (auto split: if_splits intro: exI [of _ 0])
next
  case (2 rt adv a r s k)
  then show ?case
    by (cases s) (fastforce split: if_splits)+
next
  case (3 rt adv a r s k)
  then show ?case
    by (cases s) (fastforce split: if_splits)+
next
  case (4 rt adv a r s k)
  show ?case
  proof (cases s)
    case Nil
    with 4 show ?thesis by fastforce
  next
    case (Cons c cs)
    show ?thesis
    proof (cases "atom_ok rt a c")
      case False
      with 4 Cons show ?thesis by fastforce
    next
      case True
      show ?thesis
      proof (cases "rmatch rt adv ((a, Star) # r) cs (Suc k)")
        case None
        with 4 Cons True show ?thesis by fastforce
      next
        case (Some n')
        with "4.prems" Cons True have "n' = n" by simp
        with "4.IH"(2) [OF Cons True] Some obtain m where
          "n = Suc k + m" "m \<le> length cs" "accepts rt ((a, Star) # r) (take m cs)"
          by blast
        then have "n = k + Suc m \<and> Suc m \<le> length s \<and> accepts rt ((a, Star) # r) (take (Suc m) s)"
          using Cons True by simp
        then show ?thesis by blast
      qed
    qed
  qed
next
  case (5 rt adv a r s k)
  show ?case
  proof (cases "rmatch rt adv r s k")
    case (Some n')
    with "5.prems" have "n' = n" by simp
    with "5.IH"(1) Some show ?thesis by fastforce
  next
    case None
    show ?thesis
    proof (cases s)
      case Nil
      with 5 None show ?thesis by simp
    next
      case (Cons c cs)
      with "5.prems" None have ok: "atom_ok rt a c"
        and rec: "rmatch rt adv ((a, LazyStar) # r) cs (Suc k) = Some n"
        by (auto split: if_splits)
      from "5.IH"(2) [OF None Cons ok rec] obtain m where
        "n = Suc k + m" "m \<le> length cs" "accepts rt ((a, LazyStar) # r) (take m cs)"
        by blast
      then have "n = k + Suc m \<and> Suc m \<le> length s \<and> accepts rt ((a, LazyStar) # r) (take (Suc m) s)"
        using Cons ok by simp
      then show ?thesis by blast
    qed
  qed
qed

lemma rmatch_complete:
  "\<not> adv \<Longrightarrow> accepts rt p (take m s) \<Longrightarrow> m \<le> length s \<Longrightarrow> rmatch rt adv p s k \<noteq> None"
proof (induction rt adv p s k arbitrary: m rule: rmatch.induct)
  case (1 rt adv s k)
  then show ?case by simp
next
  case (2 rt adv a r s k)
  then show ?case
    by (cases s; cases m) auto
next
  case (3 rt adv a r s k)
  then show ?case
    by (cases s; cases m) auto
next
  case (4 rt adv a r s k)
  show ?case
  proof (cases s)
    case Nil
    with 4 show ?thesis by auto
  next
    case (Cons c cs)
    show ?thesis
    proof (cases "atom_ok rt a c")
      case False
      with "4.prems" Cons have "accepts rt r (take m s)"
        by (cases m) auto
      from "4.IH"(4) [OF Cons False "4.prems"(1) this "4.prems"(3)] False Cons
      show ?thesis by simp
    next
      case True
      show ?thesis
      proof (cases "rmatch rt adv ((a, Star) # r) cs (Suc k)")
        case (Some n)
        with Cons True show ?thesis by simp
      next
        case None
        have "accepts rt r (take m s)"
        proof (rule ccontr)
          assume "\<not> accepts rt r (take m s)"
          with "4.prems" Cons obtain m' where "m = Suc m'" "accepts rt ((a, Star) # r) (take m' cs)"
            by (cases m) auto
          with "4.IH"(2) [OF Cons True "4.prems"(1), of m'] "4.prems"(3) Cons None
          show False by simp
        qed
        from "4.IH"(3) [OF Cons True None "4.prems"(1) this "4.prems"(3)] None True Cons
        show ?thesis by simp
      qed
    qed
  qed
next
  case (5 rt adv a r s k)
  show ?case
  proof (cases "rmatch rt adv r s k")
    case (Some n)
    then show ?thesis by simp
  next
    case None
    have no: "\<not> accepts rt r (take m s)"
      using "5.IH"(1) [OF "5.prems"(1) _ "5.prems"(3)] None by blast
    show ?thesis
    proof (cases s)
      case Nil
      with "5.prems" no show ?thesis by simp
    next
      case (Cons c cs)
      with "5.prems" no obtain m' where m': "m = Suc m'" "atom_ok rt a c"
        "accepts rt ((a, LazyStar) # r) (take m' cs)"
        by (cases m) auto
      with "5.IH"(2) [OF None Cons m'(2) "5.prems"(1) m'(3)] "5.prems"(3) Cons None
      show ?thesis by simp
    qed
  qed
qed

lemma scan_nonempty:
  "scan rt p skip s \<noteq> [] \<longleftrightarrow>
     (\<exists>i. skip \<le> i \<and> i \<le> length s \<and> rmatch rt False p (drop i s) 0 \<noteq> None)"
proof (induction rt p skip s rule: scan.induct)
  case (1 rt p skip)
  show ?case by (auto split: option.splits)
next
  case (2 rt p skip c cs)
  have "(\<exists>i. Suc skip \<le> i \<and> i \<le> length (c # cs) \<and> rmatch rt False p (drop i (c # cs)) 0 \<noteq> None)
      \<longleftrightarrow> (\<exists>i. skip \<le> i \<and> i \<le> length cs \<and> rmatch rt False p (drop i cs) 0 \<noteq> None)"
    (is "?L \<longleftrightarrow> ?R")
  proof
    assume ?L
    then obtain i where "Suc skip \<le> i" "i \<le> length (c # cs)" "rmatch rt False p (drop i (c # cs)) 0 \<noteq> None"
      by blast
    then show ?R
      by (cases i) auto
  next
    assume ?R
    then obtain i where "skip \<le> i" "i \<le> length cs" "rmatch rt False p (drop i cs) 0 \<noteq> None"
      by blast
    then have "Suc skip \<le> Suc i \<and> Suc i \<le> length (c # cs) \<and> rmatch rt False p (drop (Suc i) (c # cs)) 0 \<noteq> None"
      by simp
    then show ?L by blast
  qed
  with 2 show ?case by simp
next
  case (3 rt p c cs)
  show ?case
  proof (cases "rmatch rt False p (c # cs) 0")
    case (Some n)
    then have "scan rt p 0 (c # cs) \<noteq> []"
      by (cases n) auto
    moreover have "\<exists>i. 0 \<le> i \<and> i \<le> length (c # cs) \<and> rmatch rt False p (drop i (c # cs)) 0 \<noteq> None"
      using Some by (intro exI [of _ 0]) simp
    ultimately show ?thesis by blast
  next
    case None
    have "(\<exists>i. 0 \<le> i \<and> i \<le> length (c # cs) \<and> rmatch rt False p (drop i (c # cs)) 0 \<noteq> None)
      \<longleftrightarrow> (\<exists>i. 0 \<le> i \<and> i \<le> length cs \<and> rmatch rt False p (drop i cs) 0 \<noteq> None)"
      (is "?L \<longleftrightarrow> ?R")
    proof
      assume ?L
      then obtain i where "i \<le> length (c # cs)" "rmatch rt False p (drop i (c # cs)) 0 \<noteq> None"
        by blast
      with None show ?R
        by (cases i) auto
    next
      assume ?R
      then obtain i where "i \<le> length cs" "rmatch rt False p (drop i cs) 0 \<noteq> None"
        by blast
      then have "0 \<le> Suc i \<and> Suc i \<le> length (c # cs) \<and> rmatch rt False p (drop (Suc i) (c # cs)) 0 \<noteq> None"
        by simp
      then show ?L by blast
    qed
    with "3.IH"(1) [OF None] None show ?thesis by simp
  qed
qed

lemma findall_nonempty_iff: "findall rt p s \<noteq> [] \<longleftrightarrow> found rt p s"
proof
  assume "findall rt p s \<noteq> []"
  then obtain i n where i: "i \<le> length s" "rmatch rt False p (drop i s) 0 = Some n"
    by (auto simp: findall_def scan_nonempty)
  from rmatch_sound [OF i(2)] obtain m where
    m: "m \<le> length (drop i s)" "accepts rt p (take m (drop i s))"
    by auto
  have "s = take i s @ take m (drop i s) @ drop m (drop i s)"
    by (simp only: append_take_drop_id)
  with m(2) show "found rt p s"
    unfolding found_def by blast
next
  assume "found rt p s"
  then obtain u w v where s: "s = u @ w @ v" and w: "accepts rt p w"
    unfolding found_def by blast
  have "accepts rt p (take (length w) (drop (length u) s))" "length w \<le> length (drop (length u) s)"
    using s w by simp_all
  from rmatch_complete [OF _ this, of False 0]
  have "rmatch rt False p (drop (length u) s) 0 \<noteq> None"
    by simp
  moreover have "length u \<le> length s"
    using s by simp
  ultimately show "findall rt p s \<noteq> []"
    unfolding findall_def scan_nonempty by blast
qed

lemma accepts_append:
  "accepts rt (r1 @ r2) w \<Longrightarrow> \<exists>w1 w2. w = w1 @ w2 \<and> accepts rt r1 w1 \<and> accepts rt r2 w2"
proof (induction rt r1 w rule: accepts.induct)
  case (1 rt w)
  then show ?case by auto
next
  case (2 rt a r w)
  then obtain c cs where w: "w = c # cs" "atom_ok rt a c" "accepts rt (r @ r2) cs"
    by (cases w) auto
  from "2.IH" [OF w(1) w(3)] obtain w1 w2 where "cs = w1 @ w2" "accepts rt r w1" "accepts rt r2 w2"
    by blast
  with w have "w = (c # w1) @ w2 \<and> accepts rt ((a, One) # r) (c # w1) \<and> accepts rt r2 w2"
    by simp
  then show ?case by blast
next
  case (3 rt a r w)
  then obtain c cs where w: "w = c # cs" "atom_ok rt a c" "accepts rt (((a, Star) # r) @ r2) cs"
    by (cases w) auto
  from "3.IH" [OF w(1) w(3)] obtain w1 w2 where
    "cs = w1 @ w2" "accepts rt ((a, Star) # r) w1" "accepts rt r2 w2"
    by blast
  with w have "w = (c # w1) @ w2 \<and> accepts rt ((a, Plus) # r) (c # w1) \<and> accepts rt r2 w2"
    by simp
  then show ?case by blast
next
  case (4 rt a r w)
  show ?case
  proof (cases "accepts rt (r @ r2) w")
    case True
    from "4.IH"(1) [OF this] obtain w1 w2 where "w = w1 @ w2" "accepts rt r w1" "accepts rt r2 w2"
      by blast
    then have "w = w1 @ w2 \<and> accepts rt ((a, Star) # r) w1 \<and> accepts rt r2 w2"
      by simp
    then show ?thesis by blast
  next
    case False
    with "4.prems" obtain c cs where w: "w = c # cs" "atom_ok rt a c"
      "accepts rt (((a, Star) # r) @ r2) cs"
      by (cases w) auto
    from "4.IH"(2) [OF w(1) w(3)] obtain w1 w2 where
      "cs = w1 @ w2" "accepts rt ((a, Star) # r) w1" "accepts rt r2 w2"
      by blast
    with w have "w = (c # w1) @ w2 \<and> accepts rt ((a, Star) # r) (c # w1) \<and> accepts rt r2 w2"
      by simp
    then show ?thesis by blast
  qed
next
  case (5 rt a r w)
  show ?case
  proof (cases "accepts rt (r @ r2) w")
    case True
    from "5.IH"(1) [OF this] obtain w1 w2 where "w = w1 @ w2" "accepts rt r w1" "accepts rt r2 w2"
      by blast
    then have "w = w1 @ w2 \<and> accepts rt ((a, LazyStar) # r) w1 \<and> accepts rt r2 w2"
      by simp
    then show ?thesis by blast
  next
    case False
    with "5.prems" obtain c cs where w: "w = c # cs" "atom_ok rt a c"
      "accepts rt (((a, LazyStar) # r) @ r2) cs"
      by (cases w) auto
    from "5.IH"(2) [OF w(1) w(3)] obtain w1 w2 where
      "cs = w1 @ w2" "accepts rt ((a, LazyStar) # r) w1" "accepts rt r2 w2"
      by blast
    with w have "w = (c # w1) @ w2 \<and> accepts rt ((a, LazyStar) # r) (c # w1) \<and> accepts rt r2 w2"
      by simp
    then show ?thesis by blast
  qed
qed

lemma accepts_last1:
  assumes "accepts rt (r @ [(LitIC c1, One)]) w"
  shows "\<exists>w' x. w = w' @ [x] \<and> ic_eq c1 x"
proof -
  from accepts_append [OF assms] obtain w1 w2 where
    w: "w = w1 @ w2" "accepts rt [(LitIC c1, One)] w2"
    by blast
  from w(2) obtain x where "w2 = [x]" "ic_eq c1 x"
    by (cases w2) auto
  with w(1) show ?thesis by blast
qed

lemma accepts_last2:
  assumes "accepts rt (r @ [(LitIC c0, One), (LitIC c1, One)]) w"
  shows "\<exists>w' y x. w = w' @ [y, x] \<and> ic_eq c0 y \<and> ic_eq c1 x"
proof -
  from accepts_append [OF assms] obtain w1 w2 where
    w: "w = w1 @ w2" "accepts rt [(LitIC c0, One), (LitIC c1, One)] w2"
    by blast
  from w(2) obtain y x where "w2 = [y, x]" "ic_eq c0 y" "ic_eq c1 x"
    by (cases w2; cases "tl w2") auto
  with w(1) show ?thesis by blast
qed

section \<open>Decoding a content and a longer content\<close>

subsection \<open>The cases of the UTF-8 decoder\<close>

lemma utf8_1: "b < 0x80 \<Longrightarrow> utf8_decode_replace (b # r) = b # utf8_decode_replace r"
  by simp

lemma utf8_bad: "(0x80 \<le> b \<and> b < 0xC2) \<or> 0xF5 \<le> b \<Longrightarrow> utf8_decode_replace (b # r) = 0xFFFD # utf8_decode_replace r"
  by auto

lemma utf8_cut1: "0xC2 \<le> b \<Longrightarrow> b < 0xF5 \<Longrightarrow> utf8_decode_replace [b] = [0xFFFD]"
  by simp

lemma utf8_2: "0xC2 \<le> b \<Longrightarrow> b < 0xE0 \<Longrightarrow> is_cont b2 \<Longrightarrow>
    utf8_decode_replace (b # b2 # r) = ((b - 0xC0) * 64 + (b2 - 0x80)) # utf8_decode_replace r"
  by simp

lemma utf8_2_bad: "0xC2 \<le> b \<Longrightarrow> b < 0xE0 \<Longrightarrow> \<not> is_cont b2 \<Longrightarrow>
    utf8_decode_replace (b # b2 # r) = 0xFFFD # utf8_decode_replace (b2 # r)"
  by simp

lemma utf8_3_bad2: "0xE0 \<le> b \<Longrightarrow> b < 0xF0 \<Longrightarrow> \<not> ok2_of3 b b2 \<Longrightarrow>
    utf8_decode_replace (b # b2 # r) = 0xFFFD # utf8_decode_replace (b2 # r)"
  by simp

lemma utf8_3_cut2: "0xE0 \<le> b \<Longrightarrow> b < 0xF0 \<Longrightarrow> ok2_of3 b b2 \<Longrightarrow>
    utf8_decode_replace [b, b2] = [0xFFFD]"
  by simp

lemma utf8_3: "0xE0 \<le> b \<Longrightarrow> b < 0xF0 \<Longrightarrow> ok2_of3 b b2 \<Longrightarrow> is_cont b3 \<Longrightarrow>
    utf8_decode_replace (b # b2 # b3 # r) =
      ((b - 0xE0) * 4096 + (b2 - 0x80) * 64 + (b3 - 0x80)) # utf8_decode_replace r"
  by simp

lemma utf8_3_bad3: "0xE0 \<le> b \<Longrightarrow> b < 0xF0 \<Longrightarrow> ok2_of3 b b2 \<Longrightarrow> \<not> is_cont b3 \<Longrightarrow>
    utf8_decode_replace (b # b2 # b3 # r) = 0xFFFD # utf8_decode_replace (b3 # r)"
  by simp

lemma utf8_4_bad2: "0xF0 \<le> b \<Longrightarrow> b < 0xF5 \<Longrightarrow> \<not> ok2_of4 b b2 \<Longrightarrow>
    utf8_decode_replace (b # b2 # r) = 0xFFFD # utf8_decode_replace (b2 # r)"
  by simp

lemma utf8_4_cut2: "0xF0 \<le> b \<Longrightarrow> b < 0xF5 \<Longrightarrow> ok2_of4 b b2 \<Longrightarrow>
    utf8_decode_replace [b, b2] = [0xFFFD]"
  by simp

lemma utf8_4_bad3: "0xF0 \<le> b \<Longrightarrow> b < 0xF5 \<Longrightarrow> ok2_of4 b b2 \<Longrightarrow> \<not> is_cont b3 \<Longrightarrow>
    utf8_decode_replace (b # b2 # b3 # r) = 0xFFFD # utf8_decode_replace (b3 # r)"
  by simp

lemma utf8_4_cut3: "0xF0 \<le> b \<Longrightarrow> b < 0xF5 \<Longrightarrow> ok2_of4 b b2 \<Longrightarrow> is_cont b3 \<Longrightarrow>
    utf8_decode_replace [b, b2, b3] = [0xFFFD]"
  by simp

lemma utf8_4: "0xF0 \<le> b \<Longrightarrow> b < 0xF5 \<Longrightarrow> ok2_of4 b b2 \<Longrightarrow> is_cont b3 \<Longrightarrow> is_cont b4 \<Longrightarrow>
    utf8_decode_replace (b # b2 # b3 # b4 # r) =
      ((b - 0xF0) * 262144 + (b2 - 0x80) * 4096 + (b3 - 0x80) * 64 + (b4 - 0x80)) # utf8_decode_replace r"
  by simp

lemma utf8_4_bad4: "0xF0 \<le> b \<Longrightarrow> b < 0xF5 \<Longrightarrow> ok2_of4 b b2 \<Longrightarrow> is_cont b3 \<Longrightarrow> \<not> is_cont b4 \<Longrightarrow>
    utf8_decode_replace (b # b2 # b3 # b4 # r) = 0xFFFD # utf8_decode_replace (b4 # r)"
  by simp

declare utf8_decode_replace.simps(2) [simp del]

lemma decidedI:
  "0 < n \<Longrightarrow> n \<le> length b \<Longrightarrow>
   (\<And>Y. utf8_decode_replace (b @ Y) = e # utf8_decode_replace (drop n b @ Y)) \<Longrightarrow> decided b"
  unfolding decided_def by blast

lemma not_cont_ascii:
  "a < 0x80 \<Longrightarrow> \<not> is_cont a" "a < 0x80 \<Longrightarrow> \<not> ok2_of3 b a" "a < 0x80 \<Longrightarrow> \<not> ok2_of4 b a"
  by (simp_all add: is_cont_def ok2_of3_def ok2_of4_def)

lemma utf8_step_cases:
  assumes "bs \<noteq> []"
  shows "decided bs \<or> cut_short bs"
proof -
  from assms obtain b r where bs: "bs = b # r"
    by (cases bs) auto
  consider (ascii) "b < 0x80" | (bad) "(0x80 \<le> b \<and> b < 0xC2) \<or> 0xF5 \<le> b"
    | (two) "0xC2 \<le> b" "b < 0xE0" | (three) "0xE0 \<le> b" "b < 0xF0" | (four) "0xF0 \<le> b" "b < 0xF5"
    by linarith
  then show ?thesis
  proof cases
    case ascii
    have "decided bs"
      by (rule decidedI [of 1 _ b]) (simp_all add: bs utf8_1 ascii)
    then show ?thesis ..
  next
    case bad
    have "decided bs"
      by (rule decidedI [of 1 _ "0xFFFD"]) (simp_all add: bs utf8_bad bad)
    then show ?thesis ..
  next
    case two
    show ?thesis
    proof (cases r)
      case Nil
      have "cut_short bs"
        unfolding cut_short_def bs Nil
        using two by (simp add: utf8_cut1 utf8_2_bad not_cont_ascii utf8_1)
      then show ?thesis ..
    next
      case (Cons b2 r2)
      have "decided bs"
      proof (cases "is_cont b2")
        case True
        show ?thesis
          by (rule decidedI [of 2 _ "(b - 0xC0) * 64 + (b2 - 0x80)"])
            (simp_all add: bs Cons utf8_2 two True)
      next
        case False
        show ?thesis
          by (rule decidedI [of 1 _ "0xFFFD"]) (simp_all add: bs Cons utf8_2_bad two False)
      qed
      then show ?thesis ..
    qed
  next
    case three
    show ?thesis
    proof (cases r)
      case Nil
      have "cut_short bs"
        unfolding cut_short_def bs Nil
        using three by (simp add: utf8_cut1 utf8_3_bad2 not_cont_ascii utf8_1)
      then show ?thesis ..
    next
      case r: (Cons b2 r2)
      show ?thesis
      proof (cases "ok2_of3 b b2")
        case False
        have "decided bs"
          by (rule decidedI [of 1 _ "0xFFFD"]) (simp_all add: bs r utf8_3_bad2 three False)
        then show ?thesis ..
      next
        case ok: True
        show ?thesis
        proof (cases r2)
          case Nil
          have "cut_short bs"
            unfolding cut_short_def bs r Nil
            using three ok by (simp add: utf8_3_cut2 utf8_3_bad3 not_cont_ascii utf8_1)
          then show ?thesis ..
        next
          case r2: (Cons b3 r3)
          have "decided bs"
          proof (cases "is_cont b3")
            case True
            show ?thesis
              by (rule decidedI [of 3 _ "(b - 0xE0) * 4096 + (b2 - 0x80) * 64 + (b3 - 0x80)"])
                (simp_all add: bs r r2 utf8_3 three ok True)
          next
            case False
            show ?thesis
              by (rule decidedI [of 2 _ "0xFFFD"]) (simp_all add: bs r r2 utf8_3_bad3 three ok False)
          qed
          then show ?thesis ..
        qed
      qed
    qed
  next
    case four
    show ?thesis
    proof (cases r)
      case Nil
      have "cut_short bs"
        unfolding cut_short_def bs Nil
        using four by (simp add: utf8_cut1 utf8_4_bad2 not_cont_ascii utf8_1)
      then show ?thesis ..
    next
      case r: (Cons b2 r2)
      show ?thesis
      proof (cases "ok2_of4 b b2")
        case False
        have "decided bs"
          by (rule decidedI [of 1 _ "0xFFFD"]) (simp_all add: bs r utf8_4_bad2 four False)
        then show ?thesis ..
      next
        case ok: True
        show ?thesis
        proof (cases r2)
          case Nil
          have "cut_short bs"
            unfolding cut_short_def bs r Nil
            using four ok by (simp add: utf8_4_cut2 utf8_4_bad3 not_cont_ascii utf8_1)
          then show ?thesis ..
        next
          case r2: (Cons b3 r3)
          show ?thesis
          proof (cases "is_cont b3")
            case False
            have "decided bs"
              by (rule decidedI [of 2 _ "0xFFFD"]) (simp_all add: bs r r2 utf8_4_bad3 four ok False)
            then show ?thesis ..
          next
            case c3: True
            show ?thesis
            proof (cases r3)
              case Nil
              have "cut_short bs"
                unfolding cut_short_def bs r r2 Nil
                using four ok c3 by (simp add: utf8_4_cut3 utf8_4_bad4 not_cont_ascii utf8_1)
              then show ?thesis ..
            next
              case r3: (Cons b4 r4)
              have "decided bs"
              proof (cases "is_cont b4")
                case True
                show ?thesis
                  by (rule decidedI [of 4 _ "(b - 0xF0) * 262144 + (b2 - 0x80) * 4096 + (b3 - 0x80) * 64 + (b4 - 0x80)"])
                    (simp_all add: bs r r2 r3 utf8_4 four ok c3 True)
              next
                case False
                show ?thesis
                  by (rule decidedI [of 3 _ "0xFFFD"])
                    (simp_all add: bs r r2 r3 utf8_4_bad4 four ok c3 False)
              qed
              then show ?thesis ..
            qed
          qed
        qed
      qed
    qed
  qed
qed

lemma utf8_ascii_break:
  "a < 0x80 \<Longrightarrow>
   utf8_decode_replace (B @ a # Z) = utf8_decode_replace B @ a # utf8_decode_replace Z"
proof (induction B rule: length_induct)
  case (1 B)
  show ?case
  proof (cases "B = []")
    case True
    with 1 show ?thesis by (simp add: utf8_1)
  next
    case False
    from utf8_step_cases [OF this] show ?thesis
    proof
      assume "decided B"
      then obtain e n where n: "0 < n" "n \<le> length B"
        and step: "\<And>Y. utf8_decode_replace (B @ Y) = e # utf8_decode_replace (drop n B @ Y)"
        unfolding decided_def by blast
      from n False have "length (drop n B) < length B"
        by simp
      with 1 have "utf8_decode_replace (drop n B @ a # Z)
          = utf8_decode_replace (drop n B) @ a # utf8_decode_replace Z"
        by blast
      with step [of "a # Z"] step [of "[]"] show ?thesis
        by simp
    next
      assume "cut_short B"
      with 1(2) show ?thesis
        unfolding cut_short_def by simp
    qed
  qed
qed

lemma ext_ok_Cons: "ext_ok D D' \<Longrightarrow> ext_ok (e # D) (e # D')"
  unfolding ext_ok_def by (metis Cons_prefix_Cons append_Cons)

lemma utf8_extend:
  "ext_ok (utf8_decode_replace B) (utf8_decode_replace (B @ Y))"
proof (induction B rule: length_induct)
  case (1 B)
  show ?case
  proof (cases "B = []")
    case True
    then show ?thesis by (simp add: ext_ok_def)
  next
    case False
    from utf8_step_cases [OF this] show ?thesis
    proof
      assume "decided B"
      then obtain e n where n: "0 < n" "n \<le> length B"
        and step: "\<And>Y. utf8_decode_replace (B @ Y) = e # utf8_decode_replace (drop n B @ Y)"
        unfolding decided_def by blast
      from n False have "length (drop n B) < length B"
        by simp
      with 1 have "ext_ok (utf8_decode_replace (drop n B)) (utf8_decode_replace (drop n B @ Y))"
        by blast
      then have "ext_ok (e # utf8_decode_replace (drop n B)) (e # utf8_decode_replace (drop n B @ Y))"
        by (rule ext_ok_Cons)
      with step [of Y] step [of "[]"] show ?thesis
        by simp
    next
      assume "cut_short B"
      then have "utf8_decode_replace B = [] @ [0xFFFD]"
        unfolding cut_short_def by simp
      then show ?thesis
        unfolding ext_ok_def by (metis Nil_prefix)
    qed
  qed
qed

subsection \<open>Escapes and runs\<close>

lemma unquote_head: "a \<noteq> 37 \<Longrightarrow> unquote_to_bytes (a # s) = a # unquote_to_bytes s"
  by (cases s rule: unquote_to_bytes.cases) auto

lemma unquote_percent_nohex:
  "\<not> is_hexdig h \<Longrightarrow> unquote_to_bytes (37 # h # s) = 37 # unquote_to_bytes (h # s)"
  by (cases s) auto

text \<open>The bytes of a content, up to an escape that its end cuts, stay under any continuation.\<close>

lemma unquote_to_bytes_extend_short:
  assumes "length c < 3"
  shows "\<exists>B tb. unquote_to_bytes c = B @ tb \<and> junk_pct tb
           \<and> (\<forall>y. prefix B (unquote_to_bytes (c @ y)))"
proof -
  consider (none) "c = []" | (pct) "c = [37]" | (other) a where "c = [a]" "a \<noteq> 37"
    | (esc) h where "c = [37, h]" "is_hexdig h" | (pp) "c = [37, 37]"
    | (pn) h where "c = [37, h]" "\<not> is_hexdig h" "h \<noteq> 37"
    | (np) a where "c = [a, 37]" "a \<noteq> 37" | (nn) a h where "c = [a, h]" "a \<noteq> 37" "h \<noteq> 37"
    using assms by (cases c; cases "tl c"; cases "tl (tl c)") auto
  then show ?thesis
  proof cases
    case none
    have "unquote_to_bytes c = [] @ [] \<and> junk_pct []
        \<and> (\<forall>y. prefix [] (unquote_to_bytes (c @ y)))"
      by (simp add: none junk_pct_def)
    then show ?thesis by blast
  next
    case pct
    have "unquote_to_bytes c = [] @ [37] \<and> junk_pct [37]
        \<and> (\<forall>y. prefix [] (unquote_to_bytes (c @ y)))"
      by (simp add: pct junk_pct_def)
    then show ?thesis by blast
  next
    case other
    have "unquote_to_bytes c = [a] @ [] \<and> junk_pct []
        \<and> (\<forall>y. prefix [a] (unquote_to_bytes (c @ y)))"
      by (simp add: other junk_pct_def unquote_head)
    then show ?thesis by blast
  next
    case esc
    have "unquote_to_bytes c = [] @ [37, h] \<and> junk_pct [37, h]
        \<and> (\<forall>y. prefix [] (unquote_to_bytes (c @ y)))"
      using esc(2) by (auto simp: esc(1) junk_pct_def)
    then show ?thesis by blast
  next
    case pp
    have "\<not> is_hexdig 37"
      by (simp add: is_hexdig_def)
    then have "unquote_to_bytes c = [37] @ [37] \<and> junk_pct [37]
        \<and> (\<forall>y. prefix [37] (unquote_to_bytes (c @ y)))"
      by (simp add: pp junk_pct_def unquote_percent_nohex)
    then show ?thesis by blast
  next
    case pn
    have "unquote_to_bytes c = [37, h] @ [] \<and> junk_pct []
        \<and> (\<forall>y. prefix [37, h] (unquote_to_bytes (c @ y)))"
      using pn(2,3) by (simp add: pn(1) junk_pct_def unquote_percent_nohex unquote_head)
    then show ?thesis by blast
  next
    case np
    have "unquote_to_bytes c = [a] @ [37] \<and> junk_pct [37]
        \<and> (\<forall>y. prefix [a] (unquote_to_bytes (c @ y)))"
      using np(2) by (simp add: np(1) junk_pct_def unquote_head)
    then show ?thesis by blast
  next
    case nn
    have "unquote_to_bytes c = [a, h] @ [] \<and> junk_pct []
        \<and> (\<forall>y. prefix [a, h] (unquote_to_bytes (c @ y)))"
      using nn(2,3) by (simp add: nn(1) junk_pct_def unquote_head)
    then show ?thesis by blast
  qed
qed

lemma unquote_to_bytes_extend:
  "\<exists>B tb. unquote_to_bytes c = B @ tb \<and> junk_pct tb \<and> (\<forall>y. prefix B (unquote_to_bytes (c @ y)))"
proof (induction c rule: unquote_to_bytes.induct)
  case (1 c h1 h2 r)
  show ?case
  proof (cases "c = 37 \<and> is_hexdig h1 \<and> is_hexdig h2")
    case True
    with 1 obtain B tb where
      "unquote_to_bytes r = B @ tb" "junk_pct tb" "\<forall>y. prefix B (unquote_to_bytes (r @ y))"
      by blast
    with True have "unquote_to_bytes (c # h1 # h2 # r) = ((16 * hexval h1 + hexval h2) # B) @ tb
        \<and> junk_pct tb
        \<and> (\<forall>y. prefix ((16 * hexval h1 + hexval h2) # B) (unquote_to_bytes ((c # h1 # h2 # r) @ y)))"
      by simp
    then show ?thesis by blast
  next
    case False
    with 1 obtain B tb where
      "unquote_to_bytes (h1 # h2 # r) = B @ tb" "junk_pct tb"
      "\<forall>y. prefix B (unquote_to_bytes ((h1 # h2 # r) @ y))"
      by blast
    moreover have "unquote_to_bytes (c # h1 # h2 # s) = c # unquote_to_bytes (h1 # h2 # s)" for s
      using False by auto
    ultimately have "unquote_to_bytes (c # h1 # h2 # r) = (c # B) @ tb
        \<and> junk_pct tb
        \<and> (\<forall>y. prefix (c # B) (unquote_to_bytes ((c # h1 # h2 # r) @ y)))"
      by (simp del: unquote_to_bytes.simps)
    then show ?thesis by blast
  qed
qed (rule unquote_to_bytes_extend_short, simp)+

lemma stable_prefix: "prefix D D' \<Longrightarrow> stable D D'"
proof -
  assume "prefix D D'"
  then have "D = D @ [] \<and> junk [] \<and> prefix D D'"
    by (simp add: junk_def junk_pct_def)
  then show ?thesis
    unfolding stable_def by blast
qed

lemma stable_weaken: "stable D D' \<Longrightarrow> stable D (D' @ E)"
proof -
  assume "stable D D'"
  then obtain P t where "D = P @ t" "junk t" "prefix P D'"
    unfolding stable_def by blast
  then have "D = P @ t \<and> junk t \<and> prefix P (D' @ E)"
    by (simp add: prefix_prefix)
  then show ?thesis
    unfolding stable_def by blast
qed

lemma stable_append: "stable D D' \<Longrightarrow> stable (A @ D) (A @ D')"
proof -
  assume "stable D D'"
  then obtain P t where "D = P @ t" "junk t" "prefix P D'"
    unfolding stable_def by blast
  then have "A @ D = (A @ P) @ t \<and> junk t \<and> prefix (A @ P) (A @ D')"
    by simp
  then show ?thesis
    unfolding stable_def by blast
qed

lemma utf8_junk_pct: "junk_pct tb \<Longrightarrow> utf8_decode_replace (B @ tb) = utf8_decode_replace B @ tb"
proof -
  have hex: "h < 0x80" if "is_hexdig h" for h
    using that by (auto simp: is_hexdig_def)
  assume "junk_pct tb"
  then consider "tb = []" | "tb = [37]" | h where "is_hexdig h" "tb = [37, h]"
    unfolding junk_pct_def by blast
  then show ?thesis
  proof cases
    case 1
    then show ?thesis by simp
  next
    case 2
    then show ?thesis by (simp add: utf8_ascii_break)
  next
    case 3
    with hex [of h] show ?thesis by (simp add: utf8_ascii_break utf8_1)
  qed
qed

text \<open>One ASCII run: its decoding and the decoding of a longer run.\<close>

lemma decode_run_extend:
  "stable (utf8_decode_replace (unquote_to_bytes c)) (utf8_decode_replace (unquote_to_bytes (c @ y)))"
proof -
  from unquote_to_bytes_extend [of c] obtain B tb where
    c: "unquote_to_bytes c = B @ tb" and tb: "junk_pct tb"
    and ext: "\<forall>y. prefix B (unquote_to_bytes (c @ y))"
    by blast
  from ext obtain Y where Y: "unquote_to_bytes (c @ y) = B @ Y"
    by (auto simp: prefix_def)
  have D: "utf8_decode_replace (unquote_to_bytes c) = utf8_decode_replace B @ tb"
    using c tb by (simp add: utf8_junk_pct)
  from utf8_extend [of B Y] show ?thesis
    unfolding ext_ok_def
  proof
    assume "prefix (utf8_decode_replace B) (utf8_decode_replace (B @ Y))"
    moreover have "junk tb"
      using tb by (simp add: junk_def)
    ultimately show ?thesis
      unfolding stable_def D Y by blast
  next
    assume "\<exists>P. utf8_decode_replace B = P @ [0xFFFD] \<and> prefix P (utf8_decode_replace (B @ Y))"
    then obtain P where P: "utf8_decode_replace B = P @ [0xFFFD]"
      "prefix P (utf8_decode_replace (B @ Y))"
      by blast
    have "junk (0xFFFD # tb)"
      using tb by (simp add: junk_def)
    moreover have "utf8_decode_replace B @ tb = P @ (0xFFFD # tb)"
      using P(1) by simp
    ultimately show ?thesis
      unfolding stable_def D Y using P(2) by blast
  qed
qed

lemma generate_unquoted_parts_extend:
  "stable (generate_unquoted_parts c) (generate_unquoted_parts (c @ x))"
proof (induction c rule: generate_unquoted_parts.induct)
  case 1
  show ?case by (simp add: stable_prefix)
next
  case (2 a cs)
  show ?case
  proof (cases "is_ascii a")
    case False
    with 2 have "stable (generate_unquoted_parts cs) (generate_unquoted_parts (cs @ x))"
      by simp
    from stable_append [OF this, of "[a]"] False show ?thesis
      by simp
  next
    case True
    show ?thesis
    proof (cases "dropWhile is_ascii cs = []")
      case False
      then obtain z where z: "z \<in> set cs" "\<not> is_ascii z"
        by (auto simp: dropWhile_eq_Nil_conv)
      then have tw: "takeWhile is_ascii (cs @ x) = takeWhile is_ascii cs"
        and dw: "dropWhile is_ascii (cs @ x) = dropWhile is_ascii cs @ x"
        by (simp_all add: takeWhile_append1 dropWhile_append1)
      from "2.IH"(1) [OF True]
      have "stable (generate_unquoted_parts (dropWhile is_ascii cs))
              (generate_unquoted_parts (dropWhile is_ascii cs @ x))" .
      from stable_append [OF this] True show ?thesis
        by (simp add: tw dw)
    next
      case all: True
      then have tw: "takeWhile is_ascii cs = cs"
        and tw': "takeWhile is_ascii (cs @ x) = cs @ takeWhile is_ascii x"
        and dw': "dropWhile is_ascii (cs @ x) = dropWhile is_ascii x"
        by (simp_all add: dropWhile_eq_Nil_conv takeWhile_append2 dropWhile_append2 takeWhile_eq_all_conv)
      have "stable (utf8_decode_replace (unquote_to_bytes (a # cs)))
              (utf8_decode_replace (unquote_to_bytes ((a # cs) @ takeWhile is_ascii x)))"
        by (rule decode_run_extend)
      from stable_weaken [OF this, of "generate_unquoted_parts (dropWhile is_ascii x)"]
        True show ?thesis
        by (simp add: all tw tw' dw')
    qed
  qed
qed

lemma unquote_eq: "unquote s = generate_unquoted_parts s"
proof (cases "37 \<in> set s")
  case True
  then show ?thesis by (simp add: unquote_def)
next
  case False
  then have "\<not> has_escape s"
    using has_escape_percent by blast
  then have "generate_unquoted_parts s = s"
    by (rule generate_unquoted_parts_id)
  with False show ?thesis by (simp add: unquote_def)
qed

lemma decoded_extend: "stable (decoded c) (decoded (c @ x))"
  using generate_unquoted_parts_extend [of "plus_to_space c" "plus_to_space x"]
  by (simp add: decoded_def unquote_plus_def unquote_eq plus_to_space_def)

declare utf8_decode_replace.simps(2) [simp]

section \<open>Matches survive a continuation of the content\<close>

lemma is_hexdig_iff: "is_hexdig h \<longleftrightarrow> h \<in> set hex_digits"
  by (auto simp add: is_hexdig_def hex_digits_def simp del: upt_rec_numeral)

lemma lit_one_Some: "lit_one it = Some c \<Longrightarrow> it = (LitIC c, One)"
  by (cases it rule: lit_one.cases) auto

lemma tail_safe_cases:
  assumes "tail_safe p"
  obtains (no_hex) r c1 where "p = r @ [(LitIC c1, One)]" "\<not> ic_eq c1 37" "\<not> ic_eq c1 0xFFFD"
      "\<And>h. is_hexdig h \<Longrightarrow> \<not> ic_eq c1 h"
    | (two) r c0 c1 where "p = r @ [(LitIC c0, One), (LitIC c1, One)]" "\<not> ic_eq c1 37"
      "\<not> ic_eq c1 0xFFFD" "\<not> ic_eq c0 37"
proof -
  from assms obtain i1 r where rp: "rev p = i1 # r"
    by (cases "rev p") (auto simp: tail_safe_def)
  with assms obtain c1 where c1: "lit_one i1 = Some c1"
    by (cases "lit_one i1") (auto simp: tail_safe_def)
  then have i1: "i1 = (LitIC c1, One)"
    by (rule lit_one_Some)
  from assms rp c1 have safe: "\<not> ic_eq c1 37" "\<not> ic_eq c1 0xFFFD"
    by (auto simp: tail_safe_def)
  from rp have p: "p = rev r @ [i1]"
    by (metis rev.simps(2) rev_rev_ident)
  show thesis
  proof (cases "list_ex (ic_eq c1) hex_digits")
    case False
    then have "\<not> ic_eq c1 h" if "is_hexdig h" for h
      using that by (auto simp: list_ex_iff is_hexdig_iff)
    with p i1 safe show thesis
      by (intro no_hex [of "rev r" c1]) auto
  next
    case True
    with assms rp c1 obtain i0 r' where r: "r = i0 # r'"
      by (cases r) (auto simp: tail_safe_def)
    with assms rp c1 True obtain c0 where c0: "lit_one i0 = Some c0" "\<not> ic_eq c0 37"
      by (cases "lit_one i0") (auto simp: tail_safe_def)
    from c0(1) have "i0 = (LitIC c0, One)"
      by (rule lit_one_Some)
    with p r i1 have "p = rev r' @ [(LitIC c0, One), (LitIC c1, One)]"
      by simp
    with safe c0(2) show thesis
      by (intro two [of "rev r'" c0 c1]) auto
  qed
qed

lemma junk_prefix_last:
  assumes "junk t" "us @ v = t" "us \<noteq> []"
  shows "last us = 0xFFFD \<or> last us = 37 \<or> (\<exists>us' h. us = us' @ [37, h] \<and> is_hexdig h)"
proof -
  have one: "us = [a]" if "us @ v = [a]" for a
    using that assms(3) by (cases us) auto
  have two: "us = [a] \<or> us = [a, b]" if "us @ v = [a, b]" for a b
    using that assms(3) by (cases us; cases "tl us") auto
  have three: "us = [a] \<or> us = [a, b] \<or> us = [a, b, c]" if "us @ v = [a, b, c]" for a b c
    using that assms(3) by (cases us; cases "tl us"; cases "tl (tl us)") auto
  from assms(1) consider "t = []" | "t = [37]" | h where "is_hexdig h" "t = [37, h]"
    | "t = [0xFFFD]" | "t = [0xFFFD, 37]" | h where "is_hexdig h" "t = [0xFFFD, 37, h]"
    unfolding junk_def junk_pct_def by blast
  then show ?thesis
  proof cases
    case 1
    with assms show ?thesis by simp
  next
    case 2
    with one [of 37] assms(2) show ?thesis by simp
  next
    case 3
    with two [of 37 h] assms(2) have "us = [37] \<or> us = [] @ [37, h]" by simp
    with 3(1) show ?thesis by auto
  next
    case 4
    with one [of "0xFFFD"] assms(2) show ?thesis by simp
  next
    case 5
    with two [of "0xFFFD" 37] assms(2) show ?thesis by auto
  next
    case 6
    with three [of "0xFFFD" 37 h] assms(2) have "us = [0xFFFD] \<or> us = [0xFFFD, 37] \<or> us = [0xFFFD] @ [37, h]"
      by simp
    with 6(1) show ?thesis by auto
  qed
qed

lemma last2_eq: "xs @ [a, b] = ys @ [c, d] \<Longrightarrow> a = c \<and> b = d"
proof -
  assume "xs @ [a, b] = ys @ [c, d]"
  moreover have "length [a, b] = length [c, d]"
    by simp
  ultimately have "[a, b] = [c, d]"
    using append_eq_append_conv by blast
  then show ?thesis by simp
qed

text \<open>A match of a signature never reaches into the unstable end of a decoded content.\<close>

lemma match_before_junk:
  assumes safe: "tail_safe p" and acc: "accepts rt p w"
    and eq: "u @ w @ v = P @ t" and junk: "junk t"
  shows "\<exists>v0. P = u @ w @ v0"
proof -
  from eq have "(u @ w) @ v = P @ t"
    by simp
  then have "\<exists>us. (u @ w = P @ us \<and> us @ v = t) \<or> ((u @ w) @ us = P \<and> v = us @ t)"
    by (simp only: append_eq_append_conv2)
  then obtain us where "(u @ w = P @ us \<and> us @ v = t) \<or> ((u @ w) @ us = P \<and> v = us @ t)"
    by blast
  then show ?thesis
  proof
    assume "(u @ w) @ us = P \<and> v = us @ t"
    then have "P = u @ w @ us"
      by simp
    then show ?thesis ..
  next
    assume us: "u @ w = P @ us \<and> us @ v = t"
    show ?thesis
    proof (cases "us = []")
      case True
      with us have "P = u @ w @ []"
        by simp
      then show ?thesis ..
    next
      case False
      from us have t: "us @ v = t"
        by simp
      from junk_prefix_last [OF junk t False]
      have last_us: "last us = 0xFFFD \<or> last us = 37 \<or> (\<exists>us' h. us = us' @ [37, h] \<and> is_hexdig h)" .
      from us have "last (u @ w) = last (P @ us)"
        by simp
      with False have last_w: "last w = last us" if "w \<noteq> []"
        using that by simp
      from safe have False
      proof (cases rule: tail_safe_cases)
        case (no_hex r c1)
        from accepts_last1 [of rt r c1 w] acc no_hex(1) obtain w' x where
          w: "w = w' @ [x]" "ic_eq c1 x"
          by blast
        with last_w have x: "last us = x"
          by simp
        from last_us show False
        proof (elim disjE exE conjE)
          assume "last us = 0xFFFD"
          with x w(2) no_hex(3) show False by simp
        next
          assume "last us = 37"
          with x w(2) no_hex(2) show False by simp
        next
          fix us' h assume "us = us' @ [37, h]" "is_hexdig h"
          with x have "x = h" by simp
          with w(2) no_hex(4) [OF \<open>is_hexdig h\<close>] show False by simp
        qed
      next
        case (two r c0 c1)
        from accepts_last2 [of rt r c0 c1 w] acc two(1) obtain w' y x where
          w: "w = w' @ [y, x]" "ic_eq c0 y" "ic_eq c1 x"
          by blast
        with last_w have x: "last us = x"
          by simp
        from last_us show False
        proof (elim disjE exE conjE)
          assume "last us = 0xFFFD"
          with x w(3) two(3) show False by simp
        next
          assume "last us = 37"
          with x w(3) two(2) show False by simp
        next
          fix us' h assume us': "us = us' @ [37, h]"
          from us have "u @ w = P @ us"
            by simp
          with us' w(1) have "(u @ w') @ [y, x] = (P @ us') @ [37, h]"
            by simp
          then have "y = 37 \<and> x = h"
            by (rule last2_eq)
          with w(2) two(4) show False
            by simp
        qed
      qed
      then show ?thesis ..
    qed
  qed
qed

lemma found_extend:
  assumes "found rt p D" "stable D D'" "tail_safe p"
  shows "found rt p D'"
proof -
  from assms(1) obtain u w v where D: "D = u @ w @ v" and acc: "accepts rt p w"
    unfolding found_def by blast
  from assms(2) obtain P t R where Pt: "D = P @ t" "junk t" and D': "D' = P @ R"
    unfolding stable_def prefix_def by blast
  from match_before_junk [OF assms(3) acc _ Pt(2), of u v P] D Pt(1) obtain v0 where
    "P = u @ w @ v0"
    by auto
  with D' have "D' = u @ w @ (v0 @ R)"
    by simp
  with acc show ?thesis
    unfolding found_def by blast
qed

lemma compiled_patterns_tail_safe: "list_all tail_safe compiled_patterns"
  by (simp add: compiled_patterns_eq tail_safe_def lits_def ic_eq_def sre_lower_def ascii_lower_def
      hex_digits_def)

lemma matched_ids_extend: "set (matched_ids rt c) \<subseteq> set (matched_ids rt (c @ x))"
proof
  fix i assume "i \<in> set (matched_ids rt c)"
  then have i: "i < length compiled_patterns"
    and f: "findall rt (compiled_patterns ! i) (decoded c) \<noteq> []"
    by (auto simp: matched_ids_def)
  from i compiled_patterns_tail_safe have "tail_safe (compiled_patterns ! i)"
    by (simp add: list_all_length)
  with f decoded_extend [of c x] have "findall rt (compiled_patterns ! i) (decoded (c @ x)) \<noteq> []"
    unfolding findall_nonempty_iff by (blast intro: found_extend)
  with i show "i \<in> set (matched_ids rt (c @ x))"
    by (simp add: matched_ids_def)
qed

lemma calculate_risk_level_matched:
  "calculate_risk_level (found_patterns rt content) =
     (if list_ex (\<lambda>i. i \<in> set high_risk_patterns) (matched_ids rt content) then str ''high''
      else if list_ex (\<lambda>i. i \<in> set medium_risk_patterns) (matched_ids rt content) then str ''medium''
      else str ''low'')"
  by (simp add: calculate_risk_level_def Let_def pattern_ids_found)

lemma risk_rank_values:
  "risk_rank (str ''high'') = 2" "risk_rank (str ''medium'') = 1" "risk_rank (str ''low'') = 0"
  by (simp_all add: risk_rank_def str_def)

lemma risk_never_lowered:
  "risk_rank (risk_level (fst (detect_xss rt d content source_ip url)))
     \<le> risk_rank (risk_level (fst (detect_xss rt d' (content @ payload) source_ip' url')))"
proof -
  have sub: "list_ex Q (matched_ids rt content) \<Longrightarrow> list_ex Q (matched_ids rt (content @ payload))" for Q
    using matched_ids_extend [of rt content payload] by (auto simp: list_ex_iff)
  have ne: "matched_ids rt (content @ payload) \<noteq> []" if "matched_ids rt content \<noteq> []"
    using that matched_ids_extend [of rt content payload] by (cases "matched_ids rt content") auto
  show ?thesis
  proof (cases "content = [] \<or> matched_ids rt content = []")
    case True
    then show ?thesis
      by (simp add: risk_level_eq [of rt d content] risk_rank_values)
  next
    case False
    with ne have *: "content @ payload \<noteq> []" "matched_ids rt (content @ payload) \<noteq> []"
      by auto
    show ?thesis
      using False * sub [of "\<lambda>i. i \<in> set high_risk_patterns"]
        sub [of "\<lambda>i. i \<in> set medium_risk_patterns"]
      by (auto simp add: risk_level_eq calculate_risk_level_matched risk_rank_values)
  qed
qed


section \<open>The clock does not reach the matcher\<close>

text \<open>
  Of the runtime, the matcher reads only \<open>unicode_isalnum\<close>; the clock is read once, for
  the timestamp of a logged attack.
\<close>

lemma atom_ok_clock: "atom_ok (rt\<lparr>datetime_now := f\<rparr>) a c = atom_ok rt a c"
  by (cases a) (simp_all add: is_word_def)

lemma rmatch_Star_Cons:
  "rmatch rt adv ((a, Star) # r) (c # cs) k =
     (if atom_ok rt a c
      then (case rmatch rt adv ((a, Star) # r) cs (Suc k) of
              Some n \<Rightarrow> Some n
            | None \<Rightarrow> rmatch rt adv r (c # cs) k)
      else rmatch rt adv r (c # cs) k)"
  by simp

lemma rmatch_Star_Nil: "rmatch rt adv ((a, Star) # r) [] k = rmatch rt adv r [] k"
  by simp

lemma rmatch_LazyStar_Cons:
  "rmatch rt adv ((a, LazyStar) # r) (c # cs) k =
     (case rmatch rt adv r (c # cs) k of
        Some n \<Rightarrow> Some n
      | None \<Rightarrow> if atom_ok rt a c then rmatch rt adv ((a, LazyStar) # r) cs (Suc k) else None)"
  by (simp split: option.splits)

lemma rmatch_LazyStar_Nil:
  "rmatch rt adv ((a, LazyStar) # r) [] k = rmatch rt adv r [] k"
  by (simp split: option.splits)

lemma rmatch_clock: "rmatch (rt\<lparr>datetime_now := f\<rparr>) adv p s k = rmatch rt adv p s k"
proof (induction rt adv p s k rule: rmatch.induct)
  case (1 rt adv s k)
  show ?case by simp
next
  case (2 rt adv a r s k)
  then show ?case by (cases s) (simp_all add: atom_ok_clock)
next
  case (3 rt adv a r s k)
  then show ?case by (cases s) (simp_all add: atom_ok_clock)
next
  case (4 rt adv a r s k)
  show ?case
  proof (cases s)
    case Nil
    with "4.IH"(1) show ?thesis by (simp only: rmatch_Star_Nil)
  next
    case (Cons c cs)
    show ?thesis
    proof (cases "atom_ok rt a c")
      case False
      with "4.IH"(4) [OF Cons False] Cons show ?thesis
        by (simp only: rmatch_Star_Cons atom_ok_clock if_False)
    next
      case True
      note star = "4.IH"(2) [OF Cons True]
      show ?thesis
      proof (cases "rmatch rt adv ((a, Star) # r) cs (Suc k)")
        case None
        with "4.IH"(3) [OF Cons True None] star Cons True show ?thesis
          by (simp only: rmatch_Star_Cons atom_ok_clock if_True option.case)
      next
        case (Some n)
        with star Cons True show ?thesis
          by (simp only: rmatch_Star_Cons atom_ok_clock if_True option.case)
      qed
    qed
  qed
next
  case (5 rt adv a r s k)
  note skip = "5.IH"(1)
  show ?case
  proof (cases "rmatch rt adv r s k")
    case (Some n)
    with skip show ?thesis
      by (cases s) (simp_all only: rmatch_LazyStar_Nil rmatch_LazyStar_Cons option.case)
  next
    case None
    show ?thesis
    proof (cases s)
      case Nil
      with skip show ?thesis by (simp only: rmatch_LazyStar_Nil)
    next
      case (Cons c cs)
      show ?thesis
      proof (cases "atom_ok rt a c")
        case False
        with skip None Cons show ?thesis
          by (simp only: rmatch_LazyStar_Cons atom_ok_clock if_False option.case)
      next
        case True
        with "5.IH"(2) [OF None Cons True] skip None Cons show ?thesis
          by (simp only: rmatch_LazyStar_Cons atom_ok_clock if_True option.case)
      qed
    qed
  qed
qed

lemma scan_clock: "scan (rt\<lparr>datetime_now := f\<rparr>) p skip s = scan rt p skip s"
proof (induction rt p skip s rule: scan.induct)
  case (1 rt p skip)
  show ?case by (simp add: rmatch_clock)
next
  case (2 rt p skip c cs)
  then show ?case by simp
next
  case (3 rt p c cs)
  show ?case
  proof (cases "rmatch rt False p (c # cs) 0")
    case None
    with 3 show ?thesis by (simp add: rmatch_clock)
  next
    case (Some n)
    show ?thesis
    proof (cases n)
      case (Suc m)
      with 3 Some show ?thesis by (simp add: rmatch_clock)
    next
      case 0
      with 3 Some show ?thesis
        by (cases "rmatch rt True p (c # cs) 0") (simp_all add: rmatch_clock)
    qed
  qed
qed

lemma found_patterns_clock:
  "found_patterns (rt\<lparr>datetime_now := f\<rparr>) content = found_patterns rt content"
  by (simp add: found_patterns_def check_pattern_def [abs_def] findall_def scan_clock)

section \<open>The rules of decoding\<close>









lemma hexdig_plus: "is_hexdig (if h = 43 then 32 else h) \<Longrightarrow> is_hexdig h"
  by (simp add: is_hexdig_def split: if_splits)



















































section \<open>The claims\<close>

text \<open>
  C1 (as stated): every content shorter than a threshold of 10 characters is reported as
  not detected, whatever it holds, \<^verbatim>\<open><script>\<close> (8 characters) included.  The code has no
  such threshold: \<^verbatim>\<open><script>\<close> is scanned and detected.
\<close>

theorem short_content_detected:
  "length (str ''<script>'') < 10 \<and>
   detected (fst (detect_xss ascii_runtime XSSDetector_init (str ''<script>'')
                    (str ''10.0.0.1'') (str ''/search'')))"
  by (simp add: detected_iff matched_script) (simp add: str_def)

text \<open>
  C1 (amended): only the empty content leaves \<^verbatim>\<open>detect_xss\<close> without a scan, with
  detected false, no patterns, risk \<^verbatim>\<open>low\<close> and the detector as it was; a content that is
  not empty, however short, is detected exactly when one of the signatures matches it
  after decoding.
\<close>

theorem empty_content_not_scanned:
  "detect_xss rt d [] source_ip url =
     (\<lparr>detected = False, patterns = [], risk_level = str ''low'', attack_info = None,
       location = None\<rparr>, d)
   \<and> (detected (fst (detect_xss rt d (c # cs) source_ip url))
        = list_ex (\<lambda>p. findall rt p (decoded (c # cs)) \<noteq> []) compiled_patterns)"
proof -
  have "matched_ids rt (c # cs) \<noteq> []
      \<longleftrightarrow> list_ex (\<lambda>p. findall rt p (decoded (c # cs)) \<noteq> []) compiled_patterns"
    using matched_ids_nonempty by simp
  then show ?thesis
    by (simp add: detected_iff) (simp add: detect_xss_def not_detected_def)
qed






text \<open>
  C4 (as stated): the attack history never holds more than 10 records.  The code never
  evicts a record from \<^verbatim>\<open>attack_log\<close>: after 11 detections it holds 11 records.
\<close>

theorem eleven_records_kept:
  "length (attack_log (detect_all ascii_runtime XSSDetector_init
             (replicate 11 (str ''<script>'', str ''10.0.0.1'', str ''/search'')))) = 11"
proof -
  have "str ''<script>'' \<noteq> []"
    by (simp add: str_def)
  then have "detecting ascii_runtime (replicate 11 (str ''<script>'', str ''10.0.0.1'', str ''/search''))
      = replicate 11 (str ''<script>'', str ''10.0.0.1'', str ''/search'')"
    by (simp add: detecting_def matched_script)
  then show ?thesis
    using detect_all_length [of ascii_runtime XSSDetector_init
        "replicate 11 (str ''<script>'', str ''10.0.0.1'', str ''/search'')"]
    by (simp add: XSSDetector_init_def)
qed

text \<open>
  C4 (amended): \<^verbatim>\<open>attack_log\<close> is not bounded: after any run of the detector it holds
  one record for each call that detected.  Only the \<^verbatim>\<open>recent_attacks\<close> of the statistics
  are bounded: \<^verbatim>\<open>get_statistics\<close> succeeds and returns the last 10 records of the log (all of
  them while there are fewer).
\<close>

theorem attack_log_unbounded:
  "length (attack_log (detect_all rt XSSDetector_init calls)) = length (detecting rt calls)
   \<and> (\<exists>st. get_statistics (detect_all rt XSSDetector_init calls) = Inr st
         \<and> recent_attacks st
             = drop (length (attack_log (detect_all rt XSSDetector_init calls)) - 10)
                 (attack_log (detect_all rt XSSDetector_init calls))
         \<and> length (recent_attacks st) \<le> 10)"
proof -
  have "known_risks (attack_log XSSDetector_init)"
    by (simp add: known_risks_def XSSDetector_init_def)
  then have "known_risks (attack_log (detect_all rt XSSDetector_init calls))"
    by (rule detect_all_known_risks)
  from get_statistics_ok [OF this] obtain st where
    st: "get_statistics (detect_all rt XSSDetector_init calls) = Inr st"
      "recent_attacks st = drop (length (attack_log (detect_all rt XSSDetector_init calls)) - 10)
                 (attack_log (detect_all rt XSSDetector_init calls))"
    by blast
  then have "length (recent_attacks st) \<le> 10" by simp
  with st show ?thesis
    using detect_all_length [of rt XSSDetector_init calls]
    by (simp add: XSSDetector_init_def)
qed

text \<open>
  C5: if no signature matches the URL or the value of a header that is inspected
  (\<^verbatim>\<open>User-Agent\<close>, \<^verbatim>\<open>Referer\<close>, \<^verbatim>\<open>X-Forwarded-For\<close>, in any case), and the body is not
  empty and matched by a signature, then the verdict is detected, with exactly one result,
  which is tagged \<^verbatim>\<open>Body\<close>, and \<^verbatim>\<open>total_detections\<close> is 1, however many signatures match
  the body.
\<close>

theorem body_only_payload:
  assumes url_clean: "matched_ids rt url = []"
    and headers_clean:
      "list_all (\<lambda>h. matched_ids rt (snd h) = [])
       (filter (\<lambda>h. py_lower (fst h) \<in> set inspected_headers) headers)"
    and body: "body \<noteq> []" "matched_ids rt body \<noteq> []"
  shows "v_detected (fst (analyze_http_request rt d method url headers body source_ip))
       \<and> (\<exists>r. results (fst (analyze_http_request rt d method url headers body source_ip)) = [r]
              \<and> location r = Some (str ''Body'') \<and> detected r
              \<and> patterns r = found_patterns rt body)
       \<and> total_detections (fst (analyze_http_request rt d method url headers body source_ip)) = 1"
proof -
  have u: "detect_xss rt d url source_ip url = (not_detected, d)"
    using url_clean by (simp add: detect_xss_clean)
  have h: "foldl (check_header rt source_ip url) ([], d) headers = ([], d)"
    using headers_clean by (rule clean_headers_skip)
  obtain r d' where rd: "detect_xss rt d body source_ip url = (r, d')"
    by (cases "detect_xss rt d body source_ip url")
  have b: "detected r"
    using body detected_iff [of rt d body source_ip url] by (simp add: rd)
  have p: "patterns r = found_patterns rt body"
    using body rd by (auto simp: detect_xss_unfold found_patterns_empty Let_def)
  show ?thesis
    using body(1) b p
    by (simp add: analyze_http_request_def u h rd not_detected_def Let_def)
qed


theorem body_only_payload_witness:
  "v_detected (fst (analyze_http_request ascii_runtime XSSDetector_init (str ''POST'')
       (str ''/comment'') [(str ''User-Agent'', str ''Mozilla'')] (str ''<script>'')
       (str ''10.0.0.3'')))
   \<and> total_detections (fst (analyze_http_request ascii_runtime XSSDetector_init (str ''POST'')
       (str ''/comment'') [(str ''User-Agent'', str ''Mozilla'')] (str ''<script>'')
       (str ''10.0.0.3''))) = 1"
proof -
  have h: "list_all (\<lambda>h. matched_ids ascii_runtime (snd h) = [])
       (filter (\<lambda>h. py_lower (fst h) \<in> set inspected_headers)
          [(str ''User-Agent'', str ''Mozilla'')])"
    by (simp add: matched_mozilla)
  have b: "str ''<script>'' \<noteq> []" "matched_ids ascii_runtime (str ''<script>'') \<noteq> []"
    by (simp_all add: matched_script) (simp add: str_def)
  from body_only_payload [OF matched_comment h b] show ?thesis
    by simp
qed

text \<open>
  C6: for every content and every payload whose detection alone yields risk \<^verbatim>\<open>high\<close>,
  the risk of the content joined with the payload, on either side, is at least the risk of
  the content alone.  (A signature that matches a decoded content still matches the
  decoding of the content with more after it: what a continuation can change in the
  decoding is an escape or byte sequence that the end of the content cuts short, and no
  signature ends in one.  So the payload after the content keeps the matches of the
  content, and the content after the payload keeps the matches of the payload.)
\<close>

theorem concatenation_never_lowers_risk:
  assumes "risk_level (fst (detect_xss rt d0 payload source_ip0 url0)) = str ''high''"
  shows "risk_rank (risk_level (fst (detect_xss rt d content source_ip url)))
           \<le> risk_rank (risk_level (fst (detect_xss rt d' (content @ payload) source_ip' url')))
       \<and> risk_rank (risk_level (fst (detect_xss rt d content source_ip url)))
           \<le> risk_rank (risk_level (fst (detect_xss rt d' (payload @ content) source_ip' url')))"
proof
  show "risk_rank (risk_level (fst (detect_xss rt d content source_ip url)))
           \<le> risk_rank (risk_level (fst (detect_xss rt d' (content @ payload) source_ip' url')))"
    by (rule risk_never_lowered)
next
  have "risk_rank (risk_level (fst (detect_xss rt d0 payload source_ip0 url0)))
           \<le> risk_rank (risk_level (fst (detect_xss rt d' (payload @ content) source_ip' url')))"
    by (rule risk_never_lowered)
  with assms have "2 \<le> risk_rank (risk_level (fst (detect_xss rt d' (payload @ content) source_ip' url')))"
    by (simp add: risk_rank_values)
  moreover have "risk_rank (risk_level (fst (detect_xss rt d content source_ip url))) \<le> 2"
    by (simp add: risk_rank_def)
  ultimately show "risk_rank (risk_level (fst (detect_xss rt d content source_ip url)))
           \<le> risk_rank (risk_level (fst (detect_xss rt d' (payload @ content) source_ip' url')))"
    by (rule order_trans [rotated])
qed

theorem concatenation_never_lowers_risk_witness:
  "risk_level (fst (detect_xss ascii_runtime XSSDetector_init (str ''<script>'')
                      (str ''10.0.0.1'') (str ''/search''))) = str ''high''
   \<and> risk_rank (risk_level (fst (detect_xss ascii_runtime XSSDetector_init (str ''alert('')
                      (str ''10.0.0.1'') (str ''/search''))))
       \<le> risk_rank (risk_level (fst (detect_xss ascii_runtime XSSDetector_init
                      (str ''alert('' @ str ''<script>'') (str ''10.0.0.1'') (str ''/search''))))
   \<and> risk_rank (risk_level (fst (detect_xss ascii_runtime XSSDetector_init (str ''alert('')
                      (str ''10.0.0.1'') (str ''/search''))))
       \<le> risk_rank (risk_level (fst (detect_xss ascii_runtime XSSDetector_init
                      (str ''<script>'' @ str ''alert('') (str ''10.0.0.1'') (str ''/search''))))"
proof -
  have ne: "str ''<script>'' \<noteq> []"
    by (simp add: str_def)
  have high: "risk_level (fst (detect_xss ascii_runtime XSSDetector_init (str ''<script>'')
                      (str ''10.0.0.1'') (str ''/search''))) = str ''high''"
    using ne by (simp add: risk_level_eq matched_script calculate_risk_level_matched high_risk_patterns_def)
  from concatenation_never_lowers_risk [OF high] high show ?thesis
    by simp
qed

text \<open>
  C7: a call that detects adds one to \<^verbatim>\<open>detection_count\<close>, appends exactly one record
  to the attack log (the \<^verbatim>\<open>attack_info\<close> it returns) and hands one record to the logger;
  a call that does not detect leaves the detector as it was.
\<close>

theorem detect_xss_mutates_only_on_detection:
  "(if detected (fst (detect_xss rt d content source_ip url))
    then detection_count (snd (detect_xss rt d content source_ip url)) = detection_count d + 1
       \<and> (\<exists>info. attack_info (fst (detect_xss rt d content source_ip url)) = Some info
             \<and> attack_log (snd (detect_xss rt d content source_ip url)) = attack_log d @ [info])
       \<and> length (logged (snd (detect_xss rt d content source_ip url))) = length (logged d) + 1
    else snd (detect_xss rt d content source_ip url) = d)"
  by (simp add: detect_xss_unfold Let_def not_detected_def)




text \<open>
  C9: two calls with the same content, source address and URL, from any two states of
  the detector and at any two readings of the clock, return the same patterns and the
  same risk level.
\<close>

theorem detect_xss_verdict_deterministic:
  "patterns (fst (detect_xss (rt\<lparr>datetime_now := now1\<rparr>) d1 content source_ip url))
     = patterns (fst (detect_xss (rt\<lparr>datetime_now := now2\<rparr>) d2 content source_ip url))
   \<and> risk_level (fst (detect_xss (rt\<lparr>datetime_now := now1\<rparr>) d1 content source_ip url))
     = risk_level (fst (detect_xss (rt\<lparr>datetime_now := now2\<rparr>) d2 content source_ip url))"
  by (simp add: detect_xss_unfold Let_def found_patterns_clock)

text \<open>
  C10: the detected flag, the patterns and the risk level depend on the content alone;
  the source address and the URL only reach the \<^verbatim>\<open>attack_info\<close> that is logged.
\<close>

theorem detect_xss_verdict_ignores_source_and_url:
  "detected (fst (detect_xss rt d content source_ip1 url1))
     = detected (fst (detect_xss rt d content source_ip2 url2))
   \<and> patterns (fst (detect_xss rt d content source_ip1 url1))
     = patterns (fst (detect_xss rt d content source_ip2 url2))
   \<and> risk_level (fst (detect_xss rt d content source_ip1 url1))
     = risk_level (fst (detect_xss rt d content source_ip2 url2))"
  by (simp add: detect_xss_unfold Let_def)

end
